theory Spec2Isabelle
  imports Complex_Main "HOL-Library.Log_Nat"
begin

section \<open>Discontinuous Galerkin advection with upwind flux (02-advection.ipynb)\<close>

text \<open>
  The notebook writes the scheme as symbolic forms: an integrand built from the fields
  \<open>h\<close>, \<open>h0\<close>, \<open>u\<close>, the facet normal \<open>n\<close> and the test function \<open>q\<close>, times a measure
  (\<open>dx\<close> cells, \<open>dS\<close> interior facets, \<open>ds\<close> boundary facets).  Assembling a form evaluates
  the integrand at the quadrature points of the measure and adds the weighted values, once
  for every basis function of the space standing for \<open>q\<close>.

  The integrands are embedded as the source writes them.  What the library supplies (the
  quadrature points and weights, the values of \<open>u\<close>, \<open>n\<close> and of the basis functions there)
  is data of the model, so the theorems hold for every mesh and every polynomial degree.
  The fields and the forms are over the exact reals; the scalars of the time stepping
  (the timestep, the number of steps, \<open>dt\<close>) are doubles, rounded as the floats of the
  code are.
\<close>

type_synonym vec2 = "real \<times> real"

definition inner :: "vec2 \<Rightarrow> vec2 \<Rightarrow> real" where
  "inner a b = fst a * fst b + snd a * snd b"

text \<open>A quadrature point of \<open>dx\<close>: weight, velocity, and the value and gradient of every
  basis function of the space at the point.\<close>

record cell_point =
  cw :: real
  cu :: vec2
  cphi :: "real list"
  cgrad :: "vec2 list"

text \<open>A quadrature point of \<open>dS\<close>, on a facet between two cells.  Every quantity has a
  restriction to the cell labelled \<open>'+'\<close> and to the cell labelled \<open>'-'\<close>.\<close>

record facet_point =
  fw :: real
  u_plus :: vec2
  u_minus :: vec2
  n_plus :: vec2
  n_minus :: vec2
  phi_plus :: "real list"
  phi_minus :: "real list"

text \<open>A quadrature point of \<open>ds\<close>, on a facet of the domain boundary.\<close>

record bdry_point =
  bw :: real
  bu :: vec2
  bn :: vec2
  bphi :: "real list"

text \<open>The function space on the mesh, as assembly sees it.\<close>

record space =
  ndofs :: nat
  cell_points :: "cell_point list"
  facet_points :: "facet_point list"
  bdry_points :: "bdry_point list"

definition wf_space :: "space \<Rightarrow> bool" where
  "wf_space sp \<longleftrightarrow>
     list_all (\<lambda>c. length (cphi c) = ndofs sp \<and> length (cgrad c) = ndofs sp) (cell_points sp) \<and>
     list_all (\<lambda>e. length (phi_plus e) = ndofs sp \<and> length (phi_minus e) = ndofs sp)
       (facet_points sp) \<and>
     list_all (\<lambda>b. length (bphi b) = ndofs sp) (bdry_points sp)"

text \<open>A field of the space is its coefficient vector; its value at a point is the
  combination of the basis values there.\<close>

definition fn_value :: "real list \<Rightarrow> real list \<Rightarrow> real" where
  "fn_value cs phi = sum_list (map2 (*) cs phi)"

subsection \<open>The forms\<close>

text \<open>\<^verbatim>\<open>F = h * max_value(inner(u, n), 0)\<close>\<close>

definition F :: "real \<Rightarrow> vec2 \<Rightarrow> vec2 \<Rightarrow> real" where
  "F hv uv nv = hv * max (inner uv nv) 0"

text \<open>\<^verbatim>\<open>edge_flux = (F('+') - F('-')) * (q('+') - q('-')) * dS\<close>, with the \<open>i\<close>-th basis
  function as \<open>q\<close>.\<close>

definition edge_flux :: "space \<Rightarrow> real list \<Rightarrow> nat \<Rightarrow> real" where
  "edge_flux sp hv i =
     (\<Sum>e\<leftarrow>facet_points sp.
        fw e * ((F (fn_value hv (phi_plus e)) (u_plus e) (n_plus e)
                 - F (fn_value hv (phi_minus e)) (u_minus e) (n_minus e))
                * (phi_plus e ! i - phi_minus e ! i)))"

text \<open>\<^verbatim>\<open>in_flux = h0 * min_value(inner(u, n), 0) * q * ds\<close>\<close>

definition in_flux :: "space \<Rightarrow> real list \<Rightarrow> nat \<Rightarrow> real" where
  "in_flux sp h0v i =
     (\<Sum>b\<leftarrow>bdry_points sp.
        bw b * (fn_value h0v (bphi b) * min (inner (bu b) (bn b)) 0 * (bphi b ! i)))"

text \<open>\<^verbatim>\<open>out_flux = h * max_value(inner(u, n), 0) * q * ds\<close>\<close>

definition out_flux :: "space \<Rightarrow> real list \<Rightarrow> nat \<Rightarrow> real" where
  "out_flux sp hv i =
     (\<Sum>b\<leftarrow>bdry_points sp.
        bw b * (fn_value hv (bphi b) * max (inner (bu b) (bn b)) 0 * (bphi b ! i)))"

text \<open>\<^verbatim>\<open>cell_flux = -h * inner(u, grad(q)) * dx\<close>\<close>

definition cell_flux :: "space \<Rightarrow> real list \<Rightarrow> nat \<Rightarrow> real" where
  "cell_flux sp hv i =
     (\<Sum>c\<leftarrow>cell_points sp. cw c * (- fn_value hv (cphi c) * inner (cu c) (cgrad c ! i)))"

text \<open>\<^verbatim>\<open>dh_dt = -(edge_flux + in_flux + out_flux)\<close>, the degree 0 section.\<close>

definition dh_dt :: "space \<Rightarrow> real list \<Rightarrow> real list \<Rightarrow> nat \<Rightarrow> real" where
  "dh_dt sp h0v hv i = - (edge_flux sp hv i + in_flux sp h0v i + out_flux sp hv i)"

text \<open>\<^verbatim>\<open>dh_dt = -(cell_flux + edge_flux + in_flux + out_flux)\<close>, the degree 1 section, where
  the projected initial condition is called \<open>h1\<close>: \<^verbatim>\<open>in_flux = h1 * min_value(inner(u, n), 0) * q * ds\<close>.\<close>

definition dh_dt_1 :: "space \<Rightarrow> real list \<Rightarrow> real list \<Rightarrow> nat \<Rightarrow> real" where
  "dh_dt_1 sp h0v hv i =
     - (cell_flux sp hv i + edge_flux sp hv i + in_flux sp h0v i + out_flux sp hv i)"

text \<open>\<^verbatim>\<open>M = p * q * dx\<close>: the entry of the mass matrix for the \<open>j\<close>-th basis function as the
  trial function \<open>p\<close> and the \<open>i\<close>-th as the test function \<open>q\<close>.\<close>

definition M :: "space \<Rightarrow> nat \<Rightarrow> nat \<Rightarrow> real" where
  "M sp j i = (\<Sum>c\<leftarrow>cell_points sp. cw c * (cphi c ! j * cphi c ! i))"

text \<open>Swapping which of the two cells of a facet is \<open>'+'\<close> and which is \<open>'-'\<close>.\<close>

definition swap_labels :: "facet_point \<Rightarrow> facet_point" where
  "swap_labels e =
     \<lparr>fw = fw e, u_plus = u_minus e, u_minus = u_plus e, n_plus = n_minus e,
      n_minus = n_plus e, phi_plus = phi_minus e, phi_minus = phi_plus e\<rparr>"

definition relabel :: "(facet_point \<Rightarrow> bool) \<Rightarrow> space \<Rightarrow> space" where
  "relabel flip sp =
     sp\<lparr>facet_points := map (\<lambda>e. if flip e then swap_labels e else e) (facet_points sp)\<rparr>"

text \<open>The upwind value of the specification: the value on the side the flow leaves, at a
  facet whose normal, pointing out of the cell \<open>here\<close>, sees the normal velocity \<open>un\<close>.\<close>

definition upwind_value :: "real \<Rightarrow> real \<Rightarrow> real \<Rightarrow> real" where
  "upwind_value h_here h_there un = (if 0 \<le> un then h_here else h_there)"

text \<open>On an interior facet the library's normals of the two sides are opposite, and the
  velocity, a field of a continuous space (\<^verbatim>\<open>family='CG'\<close>), has one value.\<close>

definition facets_conforming :: "space \<Rightarrow> bool" where
  "facets_conforming sp \<longleftrightarrow>
     list_all (\<lambda>e. n_minus e = (- fst (n_plus e), - snd (n_plus e)) \<and> u_minus e = u_plus e)
       (facet_points sp)"

text \<open>A space of piecewise constants: the gradient of every basis function vanishes.\<close>

definition degree0 :: "space \<Rightarrow> bool" where
  "degree0 sp \<longleftrightarrow>
     list_all (\<lambda>c. cgrad c = replicate (ndofs sp) (0, 0)) (cell_points sp)"

text \<open>The basis of the piecewise constants: at every point of a cell the basis function
  of that cell is 1 and the others are 0.\<close>

definition indicator_basis :: "space \<Rightarrow> bool" where
  "indicator_basis sp \<longleftrightarrow>
     list_all (\<lambda>c. list_ex (\<lambda>k. cphi c = (replicate (ndofs sp) 0)[k := 1]) [0..<ndofs sp])
       (cell_points sp)"

subsection \<open>The linear solve and the time-stepping loop\<close>

text \<open>\<^verbatim>\<open>firedrake.solve(M == L, dh)\<close> asks for the field \<open>dh\<close> with \<open>M(dh, q) = L(q)\<close> for
  every test function \<open>q\<close>: the coefficient vector \<open>x\<close> with
  \<open>\<Sum>j. M j i * x j = L i\<close> for every \<open>i\<close>.\<close>

definition solves :: "nat \<Rightarrow> (nat \<Rightarrow> nat \<Rightarrow> real) \<Rightarrow> (nat \<Rightarrow> real) \<Rightarrow> real list \<Rightarrow> bool" where
  "solves n A L x \<longleftrightarrow> length x = n \<and> (\<forall>i<n. (\<Sum>j\<leftarrow>[0..<n]. A j i * x ! j) = L i)"

text \<open>The linear solver is the library's.  It receives the number of unknowns, the matrix
  and the right-hand side and returns the coefficients.\<close>

type_synonym solver = "nat \<Rightarrow> (nat \<Rightarrow> nat \<Rightarrow> real) \<Rightarrow> (nat \<Rightarrow> real) \<Rightarrow> real list"

type_synonym rate = "space \<Rightarrow> real list \<Rightarrow> real list \<Rightarrow> nat \<Rightarrow> real"

text \<open>A solver is exact on a space when it returns a solution of the mass-matrix system
  for every right-hand side.  (The notebook's parameters apply an incomplete LU
  factorisation once; the mass matrix of a discontinuous space is block diagonal, where
  that factorisation is complete.)\<close>

definition exact_solve :: "solver \<Rightarrow> space \<Rightarrow> bool" where
  "exact_solve solve sp \<longleftrightarrow>
     (\<forall>L. solves (ndofs sp) (M sp) L (solve (ndofs sp) (M sp) L))"

text \<open>The mass matrix is nonsingular: the homogeneous system has the zero solution only.\<close>

definition nonsingular :: "space \<Rightarrow> bool" where
  "nonsingular sp \<longleftrightarrow>
     (\<forall>x. solves (ndofs sp) (M sp) (\<lambda>i. 0) x \<longrightarrow> x = replicate (ndofs sp) 0)"

text \<open>The solver of a diagonal system, which the mass matrix of piecewise constants is.\<close>

definition diag_solve :: solver where
  "diag_solve n A L = map (\<lambda>i. L i / A i i) [0..<n]"

text \<open>The fields the loop reads and writes: \<open>h0\<close>, the projected initial condition (\<open>h1\<close> in
  the degree 1 section); \<open>h\<close>, the state; \<open>dh\<close>, the increment.\<close>

record state =
  h0 :: "real list"
  h :: "real list"
  dh :: "real list"

text \<open>\<^verbatim>\<open>h = h0.copy(deepcopy=True)\<close> (\<^verbatim>\<open>h = h1.copy(deepcopy=True)\<close> in the degree 1
  section), \<^verbatim>\<open>dh = firedrake.Function(Q)\<close>\<close>

definition init :: "space \<Rightarrow> real list \<Rightarrow> state" where
  "init sp h0v = \<lparr>h0 = h0v, h = h0v, dh = replicate (ndofs sp) 0\<rparr>"

text \<open>The loop body:
  \<^verbatim>\<open>firedrake.solve(M == dt * dh_dt, dh, **parameters)\<close>, \<^verbatim>\<open>h.assign(h + dh)\<close>.
  The form \<open>dh_dt\<close> of the section at hand is the argument \<open>rate\<close>.\<close>

definition step :: "solver \<Rightarrow> rate \<Rightarrow> space \<Rightarrow> real \<Rightarrow> state \<Rightarrow> state" where
  "step solve rate sp dtv s =
     (let dhv = solve (ndofs sp) (M sp) (\<lambda>i. dtv * rate sp (h0 s) (h s) i)
      in s\<lparr>dh := dhv, h := map2 (+) (h s) dhv\<rparr>)"

text \<open>\<^verbatim>\<open>for step in tqdm.trange(num_steps): ...\<close>\<close>

fun run :: "solver \<Rightarrow> rate \<Rightarrow> space \<Rightarrow> real \<Rightarrow> nat \<Rightarrow> state \<Rightarrow> state" where
  "run solve rate sp dtv 0 s = s"
| "run solve rate sp dtv (Suc k) s = run solve rate sp dtv k (step solve rate sp dtv s)"

text \<open>The integral of a field over the domain, \<open>h * dx\<close> assembled, and the notebook's
  check \<^verbatim>\<open>firedrake.assemble((h - h0) * dx)\<close>.\<close>

definition integral :: "space \<Rightarrow> real list \<Rightarrow> real" where
  "integral sp hv = (\<Sum>c\<leftarrow>cell_points sp. cw c * fn_value hv (cphi c))"

definition mass_change :: "space \<Rightarrow> state \<Rightarrow> real" where
  "mass_change sp s =
     (\<Sum>c\<leftarrow>cell_points sp. cw c * (fn_value (h s) (cphi c) - fn_value (h0 s) (cphi c)))"

text \<open>The basis functions add up to the constant 1 (as the nodal bases of the
  discontinuous spaces of degree 0 and 1 do), so their gradients add up to zero.\<close>

definition partition_of_unity :: "space \<Rightarrow> bool" where
  "partition_of_unity sp \<longleftrightarrow>
     list_all (\<lambda>c. sum_list (cphi c) = 1 \<and> sum_list (map fst (cgrad c)) = 0
                 \<and> sum_list (map snd (cgrad c)) = 0) (cell_points sp) \<and>
     list_all (\<lambda>e. sum_list (phi_plus e) = 1 \<and> sum_list (phi_minus e) = 1) (facet_points sp) \<and>
     list_all (\<lambda>b. sum_list (bphi b) = 1) (bdry_points sp)"

text \<open>The net flux through the boundary: the boundary forms with the constant 1 as the
  test function, that is, added over the basis functions.\<close>

definition net_boundary_flux :: "space \<Rightarrow> real list \<Rightarrow> real list \<Rightarrow> real" where
  "net_boundary_flux sp h0v hv = (\<Sum>i\<leftarrow>[0..<ndofs sp]. in_flux sp h0v i + out_flux sp hv i)"

definition no_normal_velocity :: "space \<Rightarrow> bool" where
  "no_normal_velocity sp \<longleftrightarrow> list_all (\<lambda>b. inner (bu b) (bn b) = 0) (bdry_points sp)"

definition zero_velocity :: "space \<Rightarrow> bool" where
  "zero_velocity sp \<longleftrightarrow>
     list_all (\<lambda>c. cu c = (0, 0)) (cell_points sp) \<and>
     list_all (\<lambda>e. u_plus e = (0, 0) \<and> u_minus e = (0, 0)) (facet_points sp) \<and>
     list_all (\<lambda>b. bu b = (0, 0)) (bdry_points sp)"

subsection \<open>Double-precision division\<close>

text \<open>The timestep, the number of steps and \<open>dt\<close> are computed with floats (NumPy's
  \<open>float64\<close> and Python's \<open>float\<close>, both IEEE 754 double precision), and the number of
  steps depends on how the quotient is rounded.  A float is a finite double, given by the
  real number it stands for, an infinity or a NaN.  The signs of infinities and of zero
  are left out: every infinity in this code ends in \<open>int\<close>, which raises on either sign.\<close>

datatype float64 = Finite real | Infinity | NaN

text \<open>The exceptions these lines can raise.\<close>

datatype py_error = ValueError | OverflowError | ZeroDivisionError

text \<open>The integer \<open>k\<close> with \<open>2 ^ k \<le> x < 2 ^ (k + 1)\<close>, for positive \<open>x\<close>.\<close>

definition ilog2 :: "real \<Rightarrow> int" where
  "ilog2 x = (if 1 \<le> x then bitlen \<lfloor>x\<rfloor> - 1 else - bitlen (\<lceil>1 / x\<rceil> - 1))"

text \<open>Rounding to the nearest integer, a tie going to the even one.\<close>

definition round_half_even :: "real \<Rightarrow> int" where
  "round_half_even a =
     (let f = \<lfloor>a\<rfloor>
      in if a - of_int f < 1 / 2 then f
         else if 1 / 2 < a - of_int f then f + 1
         else if even f then f else f + 1)"

text \<open>The exponent of the last place of the doubles around \<open>x\<close>: 53 significant bits,
  and never below the exponent \<open>- 1074\<close> of the subnormal numbers.\<close>

definition exponent :: "real \<Rightarrow> int" where
  "exponent x = max (ilog2 \<bar>x\<bar> - 52) (- 1074)"

text \<open>The multiple of \<open>2 ^ exponent x\<close> nearest to \<open>x\<close>, ties to even.\<close>

definition nearest :: "real \<Rightarrow> real" where
  "nearest x =
     (if x = 0 then 0
      else sgn x * of_int (round_half_even (\<bar>x\<bar> / 2 powi exponent x)) * 2 powi exponent x)"

text \<open>The result of an arithmetic operation with the exact value \<open>x\<close>: the nearest double,
  and an infinity when that is beyond the largest double.\<close>

definition round64 :: "real \<Rightarrow> float64" where
  "round64 x = (if 2 ^ 1024 \<le> \<bar>nearest x\<bar> then Infinity else Finite (nearest x))"

text \<open>The real number \<open>x\<close> is the value of a finite double.\<close>

definition is_double :: "real \<Rightarrow> bool" where
  "is_double x \<longleftrightarrow> round64 x = Finite x"

text \<open>The division of NumPy's \<open>float64\<close>.  Dividing by zero warns and gives an infinity, or
  a NaN for \<open>0 / 0\<close>; it does not raise.\<close>

fun fdiv :: "float64 \<Rightarrow> float64 \<Rightarrow> float64" where
  "fdiv NaN b = NaN"
| "fdiv a NaN = NaN"
| "fdiv Infinity Infinity = NaN"
| "fdiv Infinity (Finite y) = Infinity"
| "fdiv (Finite x) Infinity = Finite 0"
| "fdiv (Finite x) (Finite y) =
     (if y = 0 then (if x = 0 then NaN else Infinity) else round64 (x / y))"

subsection \<open>The choice of the timestep\<close>

text \<open>\<^verbatim>\<open>dx_min = mesh.cell_sizes.dat.data_ro.min()\<close>; the minimum of an empty array
  raises.\<close>

definition dx_min :: "real list \<Rightarrow> real option" where
  "dx_min cell_sizes = (if cell_sizes = [] then None else Some (min_list cell_sizes))"

text \<open>\<^verbatim>\<open>u_max = 1.\<close>\<close>

definition u_max :: real where
  "u_max = 1"

text \<open>\<^verbatim>\<open>timestep = dx_min / u_max / 2\<close> (degree 0) and
  \<^verbatim>\<open>timestep = dx_min / u_max / 16\<close> (degree 1): two divisions of a \<open>float64\<close>.\<close>

definition timestep :: "real \<Rightarrow> float64" where
  "timestep dxm = fdiv (fdiv (Finite dxm) (Finite u_max)) (Finite 2)"

definition timestep_1 :: "real \<Rightarrow> float64" where
  "timestep_1 dxm = fdiv (fdiv (Finite dxm) (Finite u_max)) (Finite 16)"

text \<open>Python's \<open>int\<close> of a float truncates towards zero.\<close>

definition py_int :: "real \<Rightarrow> int" where
  "py_int x = (if 0 \<le> x then \<lfloor>x\<rfloor> else \<lceil>x\<rceil>)"

text \<open>It raises \<open>OverflowError\<close> on an infinity and \<open>ValueError\<close> on a NaN.\<close>

fun int_of_float :: "float64 \<Rightarrow> py_error + int" where
  "int_of_float (Finite x) = Inr (py_int x)"
| "int_of_float Infinity = Inl OverflowError"
| "int_of_float NaN = Inl ValueError"

text \<open>\<^verbatim>\<open>num_steps = int(final_time / timestep) + 1\<close>.  The quotient of the Python float
  \<open>final_time\<close> (\<open>2 * np.pi\<close> in the notebook) by the \<open>float64\<close> \<open>timestep\<close> is a \<open>float64\<close>;
  the sum is an unbounded Python integer.\<close>

definition num_steps :: "real \<Rightarrow> float64 \<Rightarrow> py_error + int" where
  "num_steps final_time ts =
     (case int_of_float (fdiv (Finite final_time) ts) of
        Inl e \<Rightarrow> Inl e
      | Inr k \<Rightarrow> Inr (k + 1))"

text \<open>The conversion of a Python integer to a float, which a division of a float by an
  integer does first: the nearest double, and \<open>OverflowError\<close> beyond the largest.\<close>

definition float_of_int :: "int \<Rightarrow> py_error + real" where
  "float_of_int n =
     (case round64 (of_int n) of Finite v \<Rightarrow> Inr v | Infinity \<Rightarrow> Inl OverflowError
      | NaN \<Rightarrow> Inl OverflowError)"

text \<open>\<^verbatim>\<open>dt = firedrake.Constant(final_time / num_steps)\<close>: a Python float divided by a
  Python integer, which raises \<open>ZeroDivisionError\<close> when \<open>num_steps\<close> is 0.\<close>

definition dt :: "real \<Rightarrow> int \<Rightarrow> py_error + float64" where
  "dt final_time n =
     (case float_of_int n of
        Inl e \<Rightarrow> Inl e
      | Inr nf \<Rightarrow> if nf = 0 then Inl ZeroDivisionError else Inr (round64 (final_time / nf)))"

text \<open>The number of times the loop body runs: \<open>trange\<close> of a negative number is empty.\<close>

definition loop_count :: "int \<Rightarrow> nat" where
  "loop_count n = nat n"

subsection \<open>The two sections of the notebook\<close>

text \<open>The degree 0 section from the cell sizes of the mesh to the end of its loop: the
  timestep with the factor 2, the number of steps, \<open>dt\<close>, and the loop with the form
  \<open>dh_dt\<close> of that section started from the projected initial condition.  The result is the
  exception raised, or the state after the loop.  A \<open>dt\<close> that is not finite (it cannot
  arise when \<open>final_time\<close> is a double) takes the loop out of the real numbers of this
  model, and the result is then \<open>None\<close>.\<close>

definition advect :: "solver \<Rightarrow> space \<Rightarrow> real list \<Rightarrow> real \<Rightarrow> real list \<Rightarrow> py_error + state option" where
  "advect solve sp cell_sizes final_time h0v =
     (case dx_min cell_sizes of
        None \<Rightarrow> Inl ValueError
      | Some dxm \<Rightarrow>
          (case num_steps final_time (timestep dxm) of
             Inl e \<Rightarrow> Inl e
           | Inr n \<Rightarrow>
               (case dt final_time n of
                  Inl e \<Rightarrow> Inl e
                | Inr (Finite dtv) \<Rightarrow>
                    Inr (Some (run solve dh_dt sp dtv (loop_count n) (init sp h0v)))
                | Inr Infinity \<Rightarrow> Inr None
                | Inr NaN \<Rightarrow> Inr None)))"

text \<open>The degree 1 section: the same mesh and \<open>dx_min\<close>, the factor 16, and the form with
  the cell flux.\<close>

definition advect_1 :: "solver \<Rightarrow> space \<Rightarrow> real list \<Rightarrow> real \<Rightarrow> real list \<Rightarrow> py_error + state option" where
  "advect_1 solve sp cell_sizes final_time h0v =
     (case dx_min cell_sizes of
        None \<Rightarrow> Inl ValueError
      | Some dxm \<Rightarrow>
          (case num_steps final_time (timestep_1 dxm) of
             Inl e \<Rightarrow> Inl e
           | Inr n \<Rightarrow>
               (case dt final_time n of
                  Inl e \<Rightarrow> Inl e
                | Inr (Finite dtv) \<Rightarrow>
                    Inr (Some (run solve dh_dt_1 sp dtv (loop_count n) (init sp h0v)))
                | Inr Infinity \<Rightarrow> Inr None
                | Inr NaN \<Rightarrow> Inr None)))"

subsection \<open>A mesh of two cells\<close>

text \<open>Two cells of areas 1 and 2 side by side, piecewise constants, one quadrature point
  for each cell, for the facet between them and for the boundary of each cell.  The
  velocity \<open>uv\<close> is uniform; \<open>nl\<close> and \<open>nr\<close> are the outward normals on the boundary of the
  left and of the right cell.\<close>

definition two_cells :: "vec2 \<Rightarrow> vec2 \<Rightarrow> vec2 \<Rightarrow> space" where
  "two_cells uv nl nr =
     \<lparr>ndofs = 2,
      cell_points =
        [\<lparr>cw = 1, cu = uv, cphi = [1, 0], cgrad = [(0, 0), (0, 0)]\<rparr>,
         \<lparr>cw = 2, cu = uv, cphi = [0, 1], cgrad = [(0, 0), (0, 0)]\<rparr>],
      facet_points =
        [\<lparr>fw = 1, u_plus = uv, u_minus = uv, n_plus = (1, 0), n_minus = (- 1, 0),
          phi_plus = [1, 0], phi_minus = [0, 1]\<rparr>],
      bdry_points =
        [\<lparr>bw = 1, bu = uv, bn = nl, bphi = [1, 0]\<rparr>,
         \<lparr>bw = 1, bu = uv, bn = nr, bphi = [0, 1]\<rparr>]\<rparr>"

subsection \<open>A cell with linear basis functions\<close>

text \<open>One cell, the interval from 0 to 1 of the first axis, with the two linear nodal
  basis functions \<open>1 - x\<close> and \<open>x\<close>; Simpson's rule on the cell (points 0, 1/2, 1), which
  integrates the mass form exactly, and one boundary point at each end.  The velocity is
  \<open>(x (1 - x), 0)\<close>: it vanishes at the boundary and not inside.\<close>

definition one_cell_p1 :: space where
  "one_cell_p1 =
     \<lparr>ndofs = 2,
      cell_points =
        [\<lparr>cw = 1 / 6, cu = (0, 0), cphi = [1, 0], cgrad = [(- 1, 0), (1, 0)]\<rparr>,
         \<lparr>cw = 2 / 3, cu = (1 / 4, 0), cphi = [1 / 2, 1 / 2], cgrad = [(- 1, 0), (1, 0)]\<rparr>,
         \<lparr>cw = 1 / 6, cu = (0, 0), cphi = [0, 1], cgrad = [(- 1, 0), (1, 0)]\<rparr>],
      facet_points = [],
      bdry_points =
        [\<lparr>bw = 1, bu = (0, 0), bn = (- 1, 0), bphi = [1, 0]\<rparr>,
         \<lparr>bw = 1, bu = (0, 0), bn = (1, 0), bphi = [0, 1]\<rparr>]\<rparr>"

text \<open>The solver of a system of two equations, by Cramer's rule.\<close>

definition cramer2 :: solver where
  "cramer2 n A L =
     (let det = A 0 0 * A 1 1 - A 1 0 * A 0 1
      in [(L 0 * A 1 1 - A 1 0 * L 1) / det, (A 0 0 * L 1 - A 0 1 * L 0) / det])"

section \<open>Properties of the forms\<close>

lemma sum_list_cong_map:
  "(\<And>x. x \<in> set xs \<Longrightarrow> f x = g x) \<Longrightarrow> sum_list (map f xs) = sum_list (map g xs)"
  by (induction xs) auto

text \<open>
  C3.  On the interior facets the two cells are labelled \<open>'+'\<close> and \<open>'-'\<close> arbitrarily.
  Exchanging the labels on any set of facets leaves the assembled edge flux
  \<open>(F('+') - F('-')) * (q('+') - q('-')) * dS\<close> unchanged, for every test function: the flux
  difference and the jump of the test function both change sign.
\<close>

theorem edge_flux_relabel:
  "edge_flux (relabel flip sp) hv i = edge_flux sp hv i"
proof -
  have "(\<Sum>e\<leftarrow>facet_points sp.
          fw (if flip e then swap_labels e else e)
          * ((F (fn_value hv (phi_plus (if flip e then swap_labels e else e)))
                (u_plus (if flip e then swap_labels e else e))
                (n_plus (if flip e then swap_labels e else e))
              - F (fn_value hv (phi_minus (if flip e then swap_labels e else e)))
                  (u_minus (if flip e then swap_labels e else e))
                  (n_minus (if flip e then swap_labels e else e)))
             * (phi_plus (if flip e then swap_labels e else e) ! i
                - phi_minus (if flip e then swap_labels e else e) ! i)))
        = (\<Sum>e\<leftarrow>facet_points sp.
            fw e * ((F (fn_value hv (phi_plus e)) (u_plus e) (n_plus e)
                     - F (fn_value hv (phi_minus e)) (u_minus e) (n_minus e))
                    * (phi_plus e ! i - phi_minus e ! i)))"
    by (rule sum_list_cong_map) (simp add: swap_labels_def algebra_simps)
  then show ?thesis
    by (simp add: edge_flux_def relabel_def o_def)
qed

text \<open>
  C7.  On the boundary facets the contribution is \<open>in_flux + out_flux\<close>: the prescribed
  value \<open>h0\<close> times \<open>min (u \<cdot> n) 0\<close> plus the interior value \<open>h\<close> times \<open>max (u \<cdot> n) 0\<close>, each
  times the test function.  So at a point where \<open>u \<cdot> n\<close> is negative the contribution is
  the prescribed value times \<open>u \<cdot> n\<close>, and where it is not negative it is the interior value
  times \<open>u \<cdot> n\<close>.
\<close>

theorem boundary_flux_inflow_outflow:
  "in_flux sp h0v i + out_flux sp hv i =
     (\<Sum>b\<leftarrow>bdry_points sp.
        bw b * (fn_value h0v (bphi b) * min (inner (bu b) (bn b)) 0 * (bphi b ! i))
        + bw b * (fn_value hv (bphi b) * max (inner (bu b) (bn b)) 0 * (bphi b ! i)))
   \<and> in_flux sp h0v i + out_flux sp hv i =
     (\<Sum>b\<leftarrow>bdry_points sp.
        bw b * ((if inner (bu b) (bn b) < 0 then fn_value h0v (bphi b)
                 else fn_value hv (bphi b))
                * inner (bu b) (bn b) * (bphi b ! i)))"
proof -
  have split: "in_flux sp h0v i + out_flux sp hv i =
     (\<Sum>b\<leftarrow>bdry_points sp.
        bw b * (fn_value h0v (bphi b) * min (inner (bu b) (bn b)) 0 * (bphi b ! i))
        + bw b * (fn_value hv (bphi b) * max (inner (bu b) (bn b)) 0 * (bphi b ! i)))"
    by (simp add: in_flux_def out_flux_def sum_list_addf)
  have "(\<Sum>b\<leftarrow>bdry_points sp.
        bw b * (fn_value h0v (bphi b) * min (inner (bu b) (bn b)) 0 * (bphi b ! i))
        + bw b * (fn_value hv (bphi b) * max (inner (bu b) (bn b)) 0 * (bphi b ! i)))
     = (\<Sum>b\<leftarrow>bdry_points sp.
        bw b * ((if inner (bu b) (bn b) < 0 then fn_value h0v (bphi b)
                 else fn_value hv (bphi b))
                * inner (bu b) (bn b) * (bphi b ! i)))"
    by (rule sum_list_cong_map) (simp add: min_def max_def)
  with split show ?thesis by simp
qed

text \<open>
  C2.  The numerical flux on a side of a facet is the value on that side times
  \<open>max (u \<cdot> n) 0\<close> for the normal pointing out of that side, so it is the upwind value times
  \<open>max (u \<cdot> n) 0\<close>: it vanishes unless the flow leaves the cell of that side.  On the
  interior facets the difference of the fluxes of the two sides is the value of the cell
  the flow leaves times \<open>u \<cdot> n\<close>.  On the boundary facets the outflow term is the same
  flux of the interior value, and the inflow term is the flux of the prescribed value for
  the normal pointing into the domain, entering with the opposite sign.
\<close>

theorem upwind_numerical_flux:
  assumes "facets_conforming sp"
  shows "F hv uv nv = upwind_value hv hother (inner uv nv) * max (inner uv nv) 0
    \<and> edge_flux sp hs i =
        (\<Sum>e\<leftarrow>facet_points sp.
           fw e * (upwind_value (fn_value hs (phi_plus e)) (fn_value hs (phi_minus e))
                     (inner (u_plus e) (n_plus e))
                   * inner (u_plus e) (n_plus e) * (phi_plus e ! i - phi_minus e ! i)))
    \<and> out_flux sp hs i =
        (\<Sum>b\<leftarrow>bdry_points sp. bw b * (F (fn_value hs (bphi b)) (bu b) (bn b) * (bphi b ! i)))
    \<and> in_flux sp h0v i =
        (\<Sum>b\<leftarrow>bdry_points sp.
           bw b * (- F (fn_value h0v (bphi b)) (bu b) (- fst (bn b), - snd (bn b))
                   * (bphi b ! i)))"
proof (intro conjI)
  show "F hv uv nv = upwind_value hv hother (inner uv nv) * max (inner uv nv) 0"
    by (simp add: F_def upwind_value_def max_def)
next
  have conf: "n_minus e = (- fst (n_plus e), - snd (n_plus e)) \<and> u_minus e = u_plus e"
    if "e \<in> set (facet_points sp)" for e
    using assms that by (simp add: facets_conforming_def list_all_iff)
  have opp: "inner (u_minus e) (n_minus e) = - inner (u_plus e) (n_plus e)"
    if "e \<in> set (facet_points sp)" for e
    using conf [OF that] by (simp add: inner_def)
  show "edge_flux sp hs i =
        (\<Sum>e\<leftarrow>facet_points sp.
           fw e * (upwind_value (fn_value hs (phi_plus e)) (fn_value hs (phi_minus e))
                     (inner (u_plus e) (n_plus e))
                   * inner (u_plus e) (n_plus e) * (phi_plus e ! i - phi_minus e ! i)))"
    unfolding edge_flux_def
  proof (rule sum_list_cong_map)
    fix e assume "e \<in> set (facet_points sp)"
    then have o: "inner (u_minus e) (n_minus e) = - inner (u_plus e) (n_plus e)"
      by (rule opp)
    show "fw e * ((F (fn_value hs (phi_plus e)) (u_plus e) (n_plus e)
                   - F (fn_value hs (phi_minus e)) (u_minus e) (n_minus e))
                  * (phi_plus e ! i - phi_minus e ! i))
        = fw e * (upwind_value (fn_value hs (phi_plus e)) (fn_value hs (phi_minus e))
                     (inner (u_plus e) (n_plus e))
                   * inner (u_plus e) (n_plus e) * (phi_plus e ! i - phi_minus e ! i))"
      unfolding F_def o upwind_value_def by (simp add: max_def)
  qed
next
  show "out_flux sp hs i =
        (\<Sum>b\<leftarrow>bdry_points sp. bw b * (F (fn_value hs (bphi b)) (bu b) (bn b) * (bphi b ! i)))"
    by (simp add: out_flux_def F_def)
next
  have "min x 0 = - max (- x) 0" for x :: real
    by (simp add: min_def max_def)
  then show "in_flux sp h0v i =
        (\<Sum>b\<leftarrow>bdry_points sp.
           bw b * (- F (fn_value h0v (bphi b)) (bu b) (- fst (bn b), - snd (bn b))
                   * (bphi b ! i)))"
    by (simp add: in_flux_def F_def inner_def)
qed

text \<open>
  C8.  In a space of piecewise constants the cell flux
  \<open>-h * inner(u, grad(q)) * dx\<close> is exactly zero for every field and every test function,
  because the gradient of the test function vanishes.
\<close>

theorem cell_flux_degree0_zero:
  assumes "degree0 sp" and "i < ndofs sp"
  shows "cell_flux sp hv i = 0"
proof -
  have "(\<Sum>c\<leftarrow>cell_points sp. cw c * (- fn_value hv (cphi c) * inner (cu c) (cgrad c ! i)))
      = (\<Sum>c\<leftarrow>cell_points sp. 0)"
  proof (rule sum_list_cong_map)
    fix c assume "c \<in> set (cell_points sp)"
    with assms have "cgrad c ! i = (0, 0)"
      by (simp add: degree0_def list_all_iff)
    then show "cw c * (- fn_value hv (cphi c) * inner (cu c) (cgrad c ! i)) = 0"
      by (simp add: inner_def)
  qed
  then show ?thesis by (simp add: cell_flux_def)
qed

section \<open>Conservation of mass\<close>

lemma sum_list_swap:
  fixes g :: "'a \<Rightarrow> 'b \<Rightarrow> real"
  shows "(\<Sum>i\<leftarrow>xs. \<Sum>p\<leftarrow>ps. g p i) = (\<Sum>p\<leftarrow>ps. \<Sum>i\<leftarrow>xs. g p i)"
  by (induction ps) (simp_all add: sum_list_addf)

lemma sum_list_test_functions:
  fixes g :: "'a \<Rightarrow> real"
  shows "(\<Sum>i\<leftarrow>xs. \<Sum>p\<leftarrow>ps. g p * f p i) = (\<Sum>p\<leftarrow>ps. g p * (\<Sum>i\<leftarrow>xs. f p i))"
  by (simp add: sum_list_swap [of _ ps xs] sum_list_const_mult)

lemma sum_list_nth_upt:
  fixes phi :: "real list"
  shows "length phi = n \<Longrightarrow> (\<Sum>i\<leftarrow>[0..<n]. phi ! i) = sum_list phi"
  using map_nth [of phi] by simp

lemma sum_list_nth_upt_map:
  fixes f :: "'a \<Rightarrow> real"
  assumes "length gs = n"
  shows "(\<Sum>i\<leftarrow>[0..<n]. f (gs ! i)) = sum_list (map f gs)"
proof -
  have "map (\<lambda>i. f (gs ! i)) [0..<n] = map f gs"
    using assms by (intro nth_equalityI) simp_all
  then show ?thesis by simp
qed

lemma fn_value_nth:
  assumes "length cs = n" and "length phi = n"
  shows "fn_value cs phi = (\<Sum>j\<leftarrow>[0..<n]. cs ! j * phi ! j)"
proof -
  have "map2 (*) cs phi = map (\<lambda>j. cs ! j * phi ! j) [0..<n]"
    using assms by (intro nth_equalityI) simp_all
  then show ?thesis by (simp add: fn_value_def)
qed

lemma fn_value_add:
  "length a = length b \<Longrightarrow> fn_value (map2 (+) a b) phi = fn_value a phi + fn_value b phi"
proof (induction a b arbitrary: phi rule: list_induct2)
  case Nil
  then show ?case by (simp add: fn_value_def)
next
  case (Cons x xs y ys)
  then show ?case by (cases phi) (simp_all add: fn_value_def algebra_simps)
qed

lemma integral_add:
  "length a = length b \<Longrightarrow> integral sp (map2 (+) a b) = integral sp a + integral sp b"
  by (simp add: integral_def fn_value_add algebra_simps sum_list_addf)

lemma wf_cell: "wf_space sp \<Longrightarrow> c \<in> set (cell_points sp) \<Longrightarrow>
    length (cphi c) = ndofs sp \<and> length (cgrad c) = ndofs sp"
  by (simp add: wf_space_def list_all_iff)

lemma wf_facet: "wf_space sp \<Longrightarrow> e \<in> set (facet_points sp) \<Longrightarrow>
    length (phi_plus e) = ndofs sp \<and> length (phi_minus e) = ndofs sp"
  by (simp add: wf_space_def list_all_iff)

lemma mass_matrix_action:
  assumes "wf_space sp" and "length x = ndofs sp"
  shows "(\<Sum>j\<leftarrow>[0..<ndofs sp]. M sp j i * x ! j)
       = (\<Sum>c\<leftarrow>cell_points sp. cw c * (fn_value x (cphi c) * cphi c ! i))"
proof -
  have entry: "M sp j i * x ! j
      = (\<Sum>c\<leftarrow>cell_points sp. (cw c * cphi c ! i) * (x ! j * cphi c ! j))" for j
  proof -
    have "M sp j i * x ! j = (\<Sum>c\<leftarrow>cell_points sp. cw c * (cphi c ! j * cphi c ! i) * x ! j)"
      by (simp add: M_def sum_list_mult_const)
    also have "\<dots> = (\<Sum>c\<leftarrow>cell_points sp. (cw c * cphi c ! i) * (x ! j * cphi c ! j))"
      by (rule sum_list_cong_map) simp
    finally show ?thesis .
  qed
  have "(\<Sum>j\<leftarrow>[0..<ndofs sp]. M sp j i * x ! j)
      = (\<Sum>j\<leftarrow>[0..<ndofs sp]. \<Sum>c\<leftarrow>cell_points sp. (cw c * cphi c ! i) * (x ! j * cphi c ! j))"
    by (simp only: entry)
  also have "\<dots> = (\<Sum>c\<leftarrow>cell_points sp. (cw c * cphi c ! i) * (\<Sum>j\<leftarrow>[0..<ndofs sp]. x ! j * cphi c ! j))"
    by (rule sum_list_test_functions)
  also have "\<dots> = (\<Sum>c\<leftarrow>cell_points sp. cw c * (fn_value x (cphi c) * cphi c ! i))"
  proof (rule sum_list_cong_map)
    fix c assume "c \<in> set (cell_points sp)"
    with assms have "fn_value x (cphi c) = (\<Sum>j\<leftarrow>[0..<ndofs sp]. x ! j * cphi c ! j)"
      by (intro fn_value_nth) (simp_all add: wf_cell)
    then show "cw c * cphi c ! i * (\<Sum>j\<leftarrow>[0..<ndofs sp]. x ! j * cphi c ! j)
             = cw c * (fn_value x (cphi c) * cphi c ! i)"
      by simp
  qed
  finally show ?thesis .
qed

lemma solves_integral:
  assumes wf: "wf_space sp" and pu: "partition_of_unity sp"
    and sol: "solves (ndofs sp) (M sp) L x"
  shows "integral sp x = (\<Sum>i\<leftarrow>[0..<ndofs sp]. L i)"
proof -
  from sol have len: "length x = ndofs sp"
    and eq: "\<And>i. i < ndofs sp \<Longrightarrow> (\<Sum>j\<leftarrow>[0..<ndofs sp]. M sp j i * x ! j) = L i"
    by (simp_all add: solves_def)
  have "(\<Sum>i\<leftarrow>[0..<ndofs sp]. L i)
      = (\<Sum>i\<leftarrow>[0..<ndofs sp]. \<Sum>j\<leftarrow>[0..<ndofs sp]. M sp j i * x ! j)"
    by (rule sum_list_cong_map) (simp add: eq)
  also have "\<dots> = (\<Sum>i\<leftarrow>[0..<ndofs sp]. \<Sum>c\<leftarrow>cell_points sp.
                      (cw c * fn_value x (cphi c)) * (cphi c ! i))"
    by (simp only: mass_matrix_action [OF wf len] mult.assoc)
  also have "\<dots> = (\<Sum>c\<leftarrow>cell_points sp.
                      (cw c * fn_value x (cphi c)) * (\<Sum>i\<leftarrow>[0..<ndofs sp]. cphi c ! i))"
    by (rule sum_list_test_functions)
  also have "\<dots> = (\<Sum>c\<leftarrow>cell_points sp. cw c * fn_value x (cphi c))"
  proof (rule sum_list_cong_map)
    fix c assume c: "c \<in> set (cell_points sp)"
    with wf have "(\<Sum>i\<leftarrow>[0..<ndofs sp]. cphi c ! i) = sum_list (cphi c)"
      by (intro sum_list_nth_upt) (simp add: wf_cell)
    moreover from pu c have "sum_list (cphi c) = 1"
      by (simp add: partition_of_unity_def list_all_iff)
    ultimately show "cw c * fn_value x (cphi c) * (\<Sum>i\<leftarrow>[0..<ndofs sp]. cphi c ! i)
        = cw c * fn_value x (cphi c)"
      by simp
  qed
  finally show ?thesis by (simp add: integral_def)
qed

lemma sum_edge_flux:
  assumes wf: "wf_space sp" and pu: "partition_of_unity sp"
  shows "(\<Sum>i\<leftarrow>[0..<ndofs sp]. edge_flux sp hv i) = 0"
proof -
  let ?G = "\<lambda>e. fw e * (F (fn_value hv (phi_plus e)) (u_plus e) (n_plus e)
                 - F (fn_value hv (phi_minus e)) (u_minus e) (n_minus e))"
  have "(\<Sum>i\<leftarrow>[0..<ndofs sp]. edge_flux sp hv i)
      = (\<Sum>i\<leftarrow>[0..<ndofs sp]. \<Sum>e\<leftarrow>facet_points sp. ?G e * (phi_plus e ! i - phi_minus e ! i))"
    by (simp only: edge_flux_def mult.assoc)
  also have "\<dots> = (\<Sum>e\<leftarrow>facet_points sp.
                      ?G e * (\<Sum>i\<leftarrow>[0..<ndofs sp]. phi_plus e ! i - phi_minus e ! i))"
    by (rule sum_list_test_functions)
  also have "\<dots> = (\<Sum>e\<leftarrow>facet_points sp. 0)"
  proof (rule sum_list_cong_map)
    fix e assume e: "e \<in> set (facet_points sp)"
    with wf have "(\<Sum>i\<leftarrow>[0..<ndofs sp]. phi_plus e ! i) = sum_list (phi_plus e)"
      and "(\<Sum>i\<leftarrow>[0..<ndofs sp]. phi_minus e ! i) = sum_list (phi_minus e)"
      by (simp_all add: sum_list_nth_upt wf_facet)
    moreover from pu e have "sum_list (phi_plus e) = 1" and "sum_list (phi_minus e) = 1"
      by (simp_all add: partition_of_unity_def list_all_iff)
    ultimately have "(\<Sum>i\<leftarrow>[0..<ndofs sp]. phi_plus e ! i - phi_minus e ! i) = 0"
      by (simp add: sum_list_subtractf)
    then show "?G e * (\<Sum>i\<leftarrow>[0..<ndofs sp]. phi_plus e ! i - phi_minus e ! i) = 0"
      by simp
  qed
  finally show ?thesis by simp
qed

lemma sum_cell_flux:
  assumes wf: "wf_space sp" and pu: "partition_of_unity sp"
  shows "(\<Sum>i\<leftarrow>[0..<ndofs sp]. cell_flux sp hv i) = 0"
proof -
  let ?G = "\<lambda>c. cw c * (- fn_value hv (cphi c))"
  have "(\<Sum>i\<leftarrow>[0..<ndofs sp]. cell_flux sp hv i)
      = (\<Sum>i\<leftarrow>[0..<ndofs sp]. \<Sum>c\<leftarrow>cell_points sp. ?G c * inner (cu c) (cgrad c ! i))"
    by (simp only: cell_flux_def mult.assoc)
  also have "\<dots> = (\<Sum>c\<leftarrow>cell_points sp.
                      ?G c * (\<Sum>i\<leftarrow>[0..<ndofs sp]. inner (cu c) (cgrad c ! i)))"
    by (rule sum_list_test_functions)
  also have "\<dots> = (\<Sum>c\<leftarrow>cell_points sp. 0)"
  proof (rule sum_list_cong_map)
    fix c assume c: "c \<in> set (cell_points sp)"
    with wf have "(\<Sum>i\<leftarrow>[0..<ndofs sp]. fst (cgrad c ! i)) = sum_list (map fst (cgrad c))"
      and "(\<Sum>i\<leftarrow>[0..<ndofs sp]. snd (cgrad c ! i)) = sum_list (map snd (cgrad c))"
      by (simp_all add: sum_list_nth_upt_map wf_cell)
    moreover from pu c have "sum_list (map fst (cgrad c)) = 0"
      and "sum_list (map snd (cgrad c)) = 0"
      by (simp_all add: partition_of_unity_def list_all_iff)
    ultimately have "(\<Sum>i\<leftarrow>[0..<ndofs sp]. inner (cu c) (cgrad c ! i)) = 0"
      by (simp add: inner_def sum_list_addf sum_list_const_mult)
    then show "?G c * (\<Sum>i\<leftarrow>[0..<ndofs sp]. inner (cu c) (cgrad c ! i)) = 0"
      by simp
  qed
  finally show ?thesis by simp
qed

lemma sum_list_uminus:
  fixes f :: "'a \<Rightarrow> real"
  shows "(\<Sum>x\<leftarrow>xs. - f x) = - (\<Sum>x\<leftarrow>xs. f x)"
  by (induction xs) simp_all

lemma sum_dh_dt:
  assumes "wf_space sp" and "partition_of_unity sp"
  shows "(\<Sum>i\<leftarrow>[0..<ndofs sp]. dh_dt sp h0v hv i) = - net_boundary_flux sp h0v hv"
proof -
  have "(\<Sum>i\<leftarrow>[0..<ndofs sp]. dh_dt sp h0v hv i)
      = - ((\<Sum>i\<leftarrow>[0..<ndofs sp]. edge_flux sp hv i)
           + (\<Sum>i\<leftarrow>[0..<ndofs sp]. in_flux sp h0v i + out_flux sp hv i))"
    by (simp only: dh_dt_def add.assoc sum_list_addf sum_list_uminus)
  then show ?thesis
    using assms by (simp add: sum_edge_flux net_boundary_flux_def)
qed

lemma sum_dh_dt_1:
  assumes "wf_space sp" and "partition_of_unity sp"
  shows "(\<Sum>i\<leftarrow>[0..<ndofs sp]. dh_dt_1 sp h0v hv i) = - net_boundary_flux sp h0v hv"
proof -
  have "(\<Sum>i\<leftarrow>[0..<ndofs sp]. dh_dt_1 sp h0v hv i)
      = - ((\<Sum>i\<leftarrow>[0..<ndofs sp]. cell_flux sp hv i)
           + ((\<Sum>i\<leftarrow>[0..<ndofs sp]. edge_flux sp hv i)
           + (\<Sum>i\<leftarrow>[0..<ndofs sp]. in_flux sp h0v i + out_flux sp hv i)))"
    by (simp only: dh_dt_1_def add.assoc sum_list_addf sum_list_uminus)
  then show ?thesis
    using assms by (simp add: sum_edge_flux sum_cell_flux net_boundary_flux_def)
qed

lemma no_normal_velocity_flux:
  assumes "no_normal_velocity sp"
  shows "net_boundary_flux sp h0v hv = 0"
proof -
  have un: "inner (bu b) (bn b) = 0" if "b \<in> set (bdry_points sp)" for b
    using assms that by (simp add: no_normal_velocity_def list_all_iff)
  have "in_flux sp h0v i = (\<Sum>b\<leftarrow>bdry_points sp. 0)" for i
    unfolding in_flux_def by (rule sum_list_cong_map) (simp add: un)
  moreover have "out_flux sp hv i = (\<Sum>b\<leftarrow>bdry_points sp. 0)" for i
    unfolding out_flux_def by (rule sum_list_cong_map) (simp add: un)
  ultimately show ?thesis by (simp add: net_boundary_flux_def)
qed

lemma h0_step [simp]: "h0 (step solve rate sp dtv s) = h0 s"
  by (simp add: step_def Let_def)

lemma h0_run [simp]: "h0 (run solve rate sp dtv k s) = h0 s"
  by (induction k arbitrary: s) simp_all

lemma run_Suc_right:
  "run solve rate sp dtv (Suc k) s = step solve rate sp dtv (run solve rate sp dtv k s)"
  by (induction k arbitrary: s) simp_all

lemma step_length:
  assumes "exact_solve solve sp" and "length (h s) = ndofs sp"
  shows "length (h (step solve rate sp dtv s)) = ndofs sp"
  using assms by (simp add: step_def Let_def exact_solve_def solves_def)

lemma step_integral:
  assumes wf: "wf_space sp" and pu: "partition_of_unity sp"
    and ex: "exact_solve solve sp" and len: "length (h s) = ndofs sp"
  shows "integral sp (h (step solve rate sp dtv s))
       = integral sp (h s) + dtv * (\<Sum>i\<leftarrow>[0..<ndofs sp]. rate sp (h0 s) (h s) i)"
proof -
  let ?L = "\<lambda>i. dtv * rate sp (h0 s) (h s) i"
  let ?x = "solve (ndofs sp) (M sp) ?L"
  from ex have sol: "solves (ndofs sp) (M sp) ?L ?x"
    by (simp add: exact_solve_def)
  then have "length ?x = ndofs sp" by (simp add: solves_def)
  with len have "integral sp (map2 (+) (h s) ?x) = integral sp (h s) + integral sp ?x"
    by (simp add: integral_add)
  moreover have "integral sp ?x = (\<Sum>i\<leftarrow>[0..<ndofs sp]. ?L i)"
    using wf pu sol by (rule solves_integral)
  ultimately show ?thesis
    by (simp add: step_def Let_def sum_list_const_mult)
qed

lemma mass_change_integral: "mass_change sp s = integral sp (h s) - integral sp (h0 s)"
  by (simp add: mass_change_def integral_def right_diff_distrib sum_list_subtractf)

lemma sum_rate:
  assumes "wf_space sp" and "partition_of_unity sp" and "rate = dh_dt \<or> rate = dh_dt_1"
  shows "(\<Sum>i\<leftarrow>[0..<ndofs sp]. rate sp h0v hv i) = - net_boundary_flux sp h0v hv"
  using assms by (auto simp: sum_dh_dt sum_dh_dt_1)

lemma run_integral:
  assumes wf: "wf_space sp" and pu: "partition_of_unity sp"
    and ex: "exact_solve solve sp" and rt: "rate = dh_dt \<or> rate = dh_dt_1"
  shows "length (h s) = ndofs sp \<Longrightarrow>
         (\<forall>k<N. net_boundary_flux sp (h0 s) (h (run solve rate sp dtv k s)) = 0) \<Longrightarrow>
         integral sp (h (run solve rate sp dtv N s)) = integral sp (h s)"
proof (induction N arbitrary: s)
  case 0
  show ?case by simp
next
  case (Suc N)
  let ?s = "step solve rate sp dtv s"
  have len: "length (h ?s) = ndofs sp"
    using ex Suc.prems(1) by (rule step_length)
  have "net_boundary_flux sp (h0 ?s) (h (run solve rate sp dtv k ?s)) = 0" if "k < N" for k
    using Suc.prems(2) [rule_format, of "Suc k"] that by simp
  then have "integral sp (h (run solve rate sp dtv N ?s)) = integral sp (h ?s)"
    using Suc.IH [OF len] by blast
  moreover have "net_boundary_flux sp (h0 s) (h s) = 0"
    using Suc.prems(2) [rule_format, of 0] by simp
  then have "integral sp (h ?s) = integral sp (h s)"
    by (simp add: step_integral [OF wf pu ex Suc.prems(1)] sum_rate [OF wf pu rt])
  ultimately show ?case by simp
qed

text \<open>
  C1.  With an exact linear solve, on a space whose basis functions add up to 1, the
  integral of the state after \<open>N\<close> steps of the loop equals the integral of the initial
  state, and the notebook's check \<open>(h - h0) * dx\<close> is zero, for every \<open>N\<close>, provided the
  boundary lets no mass through: the normal velocity vanishes at the boundary, or the net
  boundary flux (inflow plus outflow) of the state is zero before every step.  The
  arithmetic is exact, so the equality is exact.
\<close>

theorem mass_conservation:
  assumes "wf_space sp" and "partition_of_unity sp" and "exact_solve solve sp"
    and "rate = dh_dt \<or> rate = dh_dt_1"
    and "length h0v = ndofs sp"
    and "no_normal_velocity sp \<or>
         (\<forall>k<N. net_boundary_flux sp h0v (h (run solve rate sp dtv k (init sp h0v))) = 0)"
  shows "integral sp (h (run solve rate sp dtv N (init sp h0v))) = integral sp h0v
       \<and> mass_change sp (run solve rate sp dtv N (init sp h0v)) = 0"
proof -
  have "\<forall>k<N. net_boundary_flux sp (h0 (init sp h0v))
                 (h (run solve rate sp dtv k (init sp h0v))) = 0"
    using assms(6) by (auto simp: no_normal_velocity_flux init_def)
  moreover have "length (h (init sp h0v)) = ndofs sp"
    using assms(5) by (simp add: init_def)
  ultimately have "integral sp (h (run solve rate sp dtv N (init sp h0v)))
      = integral sp (h (init sp h0v))"
    using run_integral [OF assms(1-4)] by blast
  then show ?thesis
    by (simp add: mass_change_integral init_def)
qed


subsection \<open>The mesh of two cells\<close>

lemma upt2: "[0..<2] = [0, Suc 0]"
  by (simp add: numeral_2_eq_2)

lemma two_cells_wf: "wf_space (two_cells uv nl nr)"
  by (simp add: wf_space_def two_cells_def)

lemma two_cells_pu: "partition_of_unity (two_cells uv nl nr)"
  by (simp add: partition_of_unity_def two_cells_def)

lemma two_cells_exact: "exact_solve diag_solve (two_cells uv nl nr)"
  by (simp add: exact_solve_def solves_def diag_solve_def upt2 M_def two_cells_def
      less_Suc_eq numeral_2_eq_2)


lemma one_cell_p1_wf: "wf_space one_cell_p1"
  by (simp add: wf_space_def one_cell_p1_def)

lemma one_cell_p1_pu: "partition_of_unity one_cell_p1"
  by (simp add: partition_of_unity_def one_cell_p1_def)

lemma one_cell_p1_M:
  "M one_cell_p1 0 0 = 1 / 3" "M one_cell_p1 (Suc 0) 0 = 1 / 6"
  "M one_cell_p1 0 (Suc 0) = 1 / 6" "M one_cell_p1 (Suc 0) (Suc 0) = 1 / 3"
  by (simp_all add: M_def one_cell_p1_def)

lemma one_cell_p1_exact: "exact_solve cramer2 one_cell_p1"
proof -
  have "solves 2 (M one_cell_p1) L (cramer2 2 (M one_cell_p1) L)" for L
    by (simp add: solves_def cramer2_def Let_def upt2 one_cell_p1_M less_Suc_eq numeral_2_eq_2
        field_simps)
  then show ?thesis
    by (simp add: exact_solve_def one_cell_p1_def)
qed

lemmas two_cells_eval =
  two_cells_def M_def dh_dt_def dh_dt_1_def edge_flux_def in_flux_def out_flux_def
  cell_flux_def F_def inner_def fn_value_def step_def init_def diag_solve_def Let_def upt2

lemmas one_cell_p1_eval =
  one_cell_p1_def M_def dh_dt_1_def edge_flux_def in_flux_def out_flux_def
  cell_flux_def F_def inner_def fn_value_def step_def init_def cramer2_def Let_def upt2

theorem mass_conservation_witness:
  "h (run diag_solve dh_dt (two_cells (1, 0) (0, 1) (0, - 1)) (1 / 2) 2
        (init (two_cells (1, 0) (0, 1) (0, - 1)) [1, 0])) = [1 / 4, 3 / 8]
   \<and> integral (two_cells (1, 0) (0, 1) (0, - 1))
        (h (run diag_solve dh_dt (two_cells (1, 0) (0, 1) (0, - 1)) (1 / 2) 2
             (init (two_cells (1, 0) (0, 1) (0, - 1)) [1, 0])))
      = integral (two_cells (1, 0) (0, 1) (0, - 1)) [1, 0]
   \<and> mass_change (two_cells (1, 0) (0, 1) (0, - 1))
        (run diag_solve dh_dt (two_cells (1, 0) (0, 1) (0, - 1)) (1 / 2) 2
             (init (two_cells (1, 0) (0, 1) (0, - 1)) [1, 0])) = 0
   \<and> cell_flux one_cell_p1 [1, 0] 0 = 1 / 12
   \<and> h (run cramer2 dh_dt_1 one_cell_p1 (1 / 2) 2 (init one_cell_p1 [1, 0])) = [1 / 2, 1 / 2]
   \<and> mass_change one_cell_p1
        (run cramer2 dh_dt_1 one_cell_p1 (1 / 2) 2 (init one_cell_p1 [1, 0])) = 0"
proof -
  let ?sp = "two_cells (1, 0) (0, 1) (0, - 1)"
  have closed: "no_normal_velocity ?sp"
    by (simp add: no_normal_velocity_def two_cells_def inner_def)
  have len: "length [1, 0 :: real] = ndofs ?sp"
    by (simp add: two_cells_def)
  have run0: "h (run diag_solve dh_dt ?sp (1 / 2) 2 (init ?sp [1, 0])) = [1 / 4, 3 / 8]"
    by (simp add: numeral_2_eq_2 two_cells_eval)
  have closed1: "no_normal_velocity one_cell_p1"
    by (simp add: no_normal_velocity_def one_cell_p1_def inner_def)
  have len1: "length [1, 0 :: real] = ndofs one_cell_p1"
    by (simp add: one_cell_p1_def)
  have run1: "h (run cramer2 dh_dt_1 one_cell_p1 (1 / 2) 2 (init one_cell_p1 [1, 0]))
      = [1 / 2, 1 / 2]"
    by (simp add: numeral_2_eq_2 one_cell_p1_eval)
  have flux1: "cell_flux one_cell_p1 [1, 0] 0 = 1 / 12"
    by (simp add: one_cell_p1_eval)
  from mass_conservation [OF two_cells_wf two_cells_pu two_cells_exact _ len, of dh_dt 2 "1 / 2"]
    mass_conservation [OF one_cell_p1_wf one_cell_p1_pu one_cell_p1_exact _ len1,
      of dh_dt_1 2 "1 / 2"]
    closed closed1 run0 run1 flux1
  show ?thesis by simp
qed

theorem upwind_numerical_flux_witness:
  "facets_conforming (two_cells (1, 0) (- 1, 0) (1, 0))
   \<and> edge_flux (two_cells (1, 0) (- 1, 0) (1, 0)) [3, 5] 0 = 3
   \<and> edge_flux (two_cells (1, 0) (- 1, 0) (1, 0)) [3, 5] 0
       = upwind_value 3 5 1 * 1 * (1 - 0)
   \<and> F 3 (1, 0) (1, 0) = upwind_value 3 5 (inner (1, 0) (1, 0)) * max (inner (1, 0) (1, 0)) 0"
proof -
  have conf: "facets_conforming (two_cells (1, 0) (- 1, 0) (1, 0))"
    by (simp add: facets_conforming_def two_cells_def)
  from upwind_numerical_flux [OF conf, of 3 "(1, 0)" "(1, 0)" 5 "[3, 5]" 0] conf
  show ?thesis
    by (simp add: two_cells_def inner_def fn_value_def upwind_value_def)
qed

theorem cell_flux_degree0_zero_witness:
  "degree0 (two_cells (1, 0) (- 1, 0) (1, 0)) \<and> (1::nat) < ndofs (two_cells (1, 0) (- 1, 0) (1, 0))
   \<and> cell_flux (two_cells (1, 0) (- 1, 0) (1, 0)) [3, 5] 1 = 0"
proof -
  have d: "degree0 (two_cells (1, 0) (- 1, 0) (1, 0))"
    by (simp add: degree0_def two_cells_def numeral_2_eq_2)
  have i: "(1::nat) < ndofs (two_cells (1, 0) (- 1, 0) (1, 0))"
    by (simp add: two_cells_def)
  from cell_flux_degree0_zero [OF d i, of "[3, 5]"] d i show ?thesis by simp
qed

section \<open>Zero velocity\<close>

lemma zero_velocity_rate:
  assumes zv: "zero_velocity sp" and rt: "rate = dh_dt \<or> rate = dh_dt_1"
  shows "rate sp h0v hv i = 0"
proof -
  have "cell_flux sp hv i = (\<Sum>c\<leftarrow>cell_points sp. 0)"
    unfolding cell_flux_def
    by (rule sum_list_cong_map) (use zv in \<open>simp add: zero_velocity_def list_all_iff inner_def\<close>)
  moreover have "edge_flux sp hv i = (\<Sum>e\<leftarrow>facet_points sp. 0)"
    unfolding edge_flux_def
    by (rule sum_list_cong_map)
      (use zv in \<open>simp add: zero_velocity_def list_all_iff inner_def F_def\<close>)
  moreover have "in_flux sp h0v i = (\<Sum>b\<leftarrow>bdry_points sp. 0)"
    unfolding in_flux_def
    by (rule sum_list_cong_map) (use zv in \<open>simp add: zero_velocity_def list_all_iff inner_def\<close>)
  moreover have "out_flux sp hv i = (\<Sum>b\<leftarrow>bdry_points sp. 0)"
    unfolding out_flux_def
    by (rule sum_list_cong_map) (use zv in \<open>simp add: zero_velocity_def list_all_iff inner_def\<close>)
  ultimately show ?thesis
    using rt by (auto simp: dh_dt_def dh_dt_1_def)
qed

lemma map2_add_zero:
  fixes xs :: "real list"
  shows "length xs = n \<Longrightarrow> map2 (+) xs (replicate n 0) = xs"
  by (intro nth_equalityI) simp_all

lemma zero_velocity_step:
  assumes zv: "zero_velocity sp" and ex: "exact_solve solve sp" and ns: "nonsingular sp"
    and rt: "rate = dh_dt \<or> rate = dh_dt_1" and len: "length (h s) = ndofs sp"
  shows "h (step solve rate sp dtv s) = h s"
proof -
  have rhs: "(\<lambda>i. dtv * rate sp (h0 s) (h s) i) = (\<lambda>i. 0)"
    by (simp add: zero_velocity_rate [OF zv rt])
  from ex have "solves (ndofs sp) (M sp) (\<lambda>i. 0) (solve (ndofs sp) (M sp) (\<lambda>i. 0))"
    by (simp add: exact_solve_def)
  with ns have "solve (ndofs sp) (M sp) (\<lambda>i. 0) = replicate (ndofs sp) 0"
    by (simp add: nonsingular_def)
  with len show ?thesis
    by (simp add: step_def Let_def rhs map2_add_zero)
qed

text \<open>
  C9.  If the velocity is zero at every quadrature point, then, with an exact linear solve
  of a nonsingular mass matrix, the state after any number of steps is the initial state,
  coefficient for coefficient, for the forms of both sections.
\<close>

theorem zero_velocity_unchanged:
  assumes "zero_velocity sp" and "exact_solve solve sp" and "nonsingular sp"
    and "rate = dh_dt \<or> rate = dh_dt_1" and "length (h s) = ndofs sp"
  shows "h (run solve rate sp dtv N s) = h s"
  using assms(5)
proof (induction N arbitrary: s)
  case 0
  show ?case by simp
next
  case (Suc N)
  have st: "h (step solve rate sp dtv s) = h s"
    using assms(1-4) Suc.prems by (rule zero_velocity_step)
  with Suc.prems have "length (h (step solve rate sp dtv s)) = ndofs sp"
    by simp
  then have "h (run solve rate sp dtv N (step solve rate sp dtv s)) = h (step solve rate sp dtv s)"
    by (rule Suc.IH)
  with st show ?case by simp
qed

lemma two_cells_nonsingular: "nonsingular (two_cells uv nl nr)"
proof -
  have "x = [0, 0]" if "solves 2 (M (two_cells uv nl nr)) (\<lambda>i. 0) x" for x
  proof -
    from that obtain a b where x: "x = [a, b]"
      by (auto simp: solves_def numeral_2_eq_2 length_Suc_conv)
    from that show ?thesis
      by (simp add: solves_def x upt2 M_def two_cells_def less_Suc_eq numeral_2_eq_2)
  qed
  then show ?thesis
    by (simp add: nonsingular_def two_cells_def numeral_2_eq_2)
qed

theorem zero_velocity_unchanged_witness:
  "zero_velocity (two_cells (0, 0) (- 1, 0) (1, 0))
   \<and> h (run diag_solve dh_dt (two_cells (0, 0) (- 1, 0) (1, 0)) (1 / 2) 3
        (init (two_cells (0, 0) (- 1, 0) (1, 0)) [3, 5])) = [3, 5]
   \<and> h (run diag_solve dh_dt_1 (two_cells (0, 0) (- 1, 0) (1, 0)) (1 / 2) 3
        (init (two_cells (0, 0) (- 1, 0) (1, 0)) [3, 5])) = [3, 5]"
proof -
  let ?sp = "two_cells (0, 0) (- 1, 0) (1, 0)"
  have zv: "zero_velocity ?sp"
    by (simp add: zero_velocity_def two_cells_def)
  have len: "length (h (init ?sp [3, 5])) = ndofs ?sp"
    by (simp add: init_def two_cells_def)
  from zero_velocity_unchanged [OF zv two_cells_exact two_cells_nonsingular _ len, of dh_dt "1 / 2" 3]
    zero_velocity_unchanged [OF zv two_cells_exact two_cells_nonsingular _ len, of dh_dt_1 "1 / 2" 3]
    zv
  show ?thesis by (simp add: init_def)
qed


section \<open>The increment of a step\<close>

lemma sum_list_upt_single:
  fixes f :: "nat \<Rightarrow> real"
  assumes "i < n" and "\<And>j. j < n \<Longrightarrow> j \<noteq> i \<Longrightarrow> f j = 0"
  shows "(\<Sum>j\<leftarrow>[0..<n]. f j) = f i"
proof -
  have "(\<Sum>j\<leftarrow>[0..<n]. f j) = sum f {0..<n}"
    by (simp add: interv_sum_list_conv_sum_set_nat)
  also have "\<dots> = sum f {i}"
    using assms by (intro sum.mono_neutral_right) auto
  finally show ?thesis by simp
qed

lemma indicator_M_offdiag:
  assumes ib: "indicator_basis sp" and "i < ndofs sp" and "j < ndofs sp" and "j \<noteq> i"
  shows "M sp j i = 0"
proof -
  have "(\<Sum>c\<leftarrow>cell_points sp. cw c * (cphi c ! j * cphi c ! i)) = (\<Sum>c\<leftarrow>cell_points sp. 0)"
  proof (rule sum_list_cong_map)
    fix c assume "c \<in> set (cell_points sp)"
    with ib obtain k where "cphi c = (replicate (ndofs sp) 0)[k := 1]"
      by (auto simp: indicator_basis_def list_all_iff list_ex_iff)
    with assms(2,3) have "cphi c ! j = (if j = k then 1 else 0)"
      and "cphi c ! i = (if i = k then 1 else 0)"
      by (simp_all add: nth_list_update)
    with assms(4) have "cphi c ! j * cphi c ! i = 0"
      by simp
    then show "cw c * (cphi c ! j * cphi c ! i) = 0" by simp
  qed
  then show ?thesis by (simp add: M_def)
qed

lemma step_solves:
  assumes "exact_solve solve sp"
  shows "solves (ndofs sp) (M sp) (\<lambda>i. dtv * rate sp (h0 s) (h s) i)
           (dh (step solve rate sp dtv s))"
  using assms by (simp add: step_def Let_def exact_solve_def)

text \<open>
  C4 (amended).  With an exact linear solve, the increment \<open>dh\<close> of a step solves the
  mass-matrix system with the right-hand side \<open>dt * dh_dt\<close>, and \<open>dh_dt\<close> is the negated sum
  of the flux forms: \<open>M \<cdot> dh = - dt * (edge_flux + in_flux + out_flux)\<close> in the degree 0
  section and \<open>M \<cdot> dh = - dt * (cell_flux + edge_flux + in_flux + out_flux)\<close> in the degree 1
  section; the new state is \<open>h + dh\<close>.  For piecewise constants the mass matrix is diagonal
  and the system is one scaling for each cell: \<open>M i i * dh i\<close> is the right-hand side at \<open>i\<close>.
\<close>

theorem increment_solves_mass_system:
  assumes "exact_solve solve sp"
  shows "length (dh (step solve rate sp dtv s)) = ndofs sp
    \<and> h (step solve rate sp dtv s) = map2 (+) (h s) (dh (step solve rate sp dtv s))
    \<and> (\<forall>i<ndofs sp.
          (\<Sum>j\<leftarrow>[0..<ndofs sp]. M sp j i * dh (step solve dh_dt sp dtv s) ! j)
          = - dtv * (edge_flux sp (h s) i + in_flux sp (h0 s) i + out_flux sp (h s) i))
    \<and> (\<forall>i<ndofs sp.
          (\<Sum>j\<leftarrow>[0..<ndofs sp]. M sp j i * dh (step solve dh_dt_1 sp dtv s) ! j)
          = - dtv * (cell_flux sp (h s) i + edge_flux sp (h s) i + in_flux sp (h0 s) i
                     + out_flux sp (h s) i))
    \<and> (indicator_basis sp \<longrightarrow>
         (\<forall>i<ndofs sp.
            M sp i i * dh (step solve dh_dt sp dtv s) ! i
            = - dtv * (edge_flux sp (h s) i + in_flux sp (h0 s) i + out_flux sp (h s) i)))"
proof (intro conjI impI allI)
  show "length (dh (step solve rate sp dtv s)) = ndofs sp"
    using step_solves [OF assms, of dtv rate s] by (simp add: solves_def)
  show "h (step solve rate sp dtv s) = map2 (+) (h s) (dh (step solve rate sp dtv s))"
    by (simp add: step_def Let_def)
  show sys: "(\<Sum>j\<leftarrow>[0..<ndofs sp]. M sp j i * dh (step solve dh_dt sp dtv s) ! j)
      = - dtv * (edge_flux sp (h s) i + in_flux sp (h0 s) i + out_flux sp (h s) i)"
    if "i < ndofs sp" for i
    using step_solves [OF assms, of dtv dh_dt s] that by (simp add: solves_def dh_dt_def algebra_simps)
  show "(\<Sum>j\<leftarrow>[0..<ndofs sp]. M sp j i * dh (step solve dh_dt_1 sp dtv s) ! j)
      = - dtv * (cell_flux sp (h s) i + edge_flux sp (h s) i + in_flux sp (h0 s) i
                 + out_flux sp (h s) i)"
    if "i < ndofs sp" for i
    using step_solves [OF assms, of dtv dh_dt_1 s] that
    by (simp add: solves_def dh_dt_1_def algebra_simps)
  show "M sp i i * dh (step solve dh_dt sp dtv s) ! i
      = - dtv * (edge_flux sp (h s) i + in_flux sp (h0 s) i + out_flux sp (h s) i)"
    if ib: "indicator_basis sp" and i: "i < ndofs sp" for i
  proof -
    have "(\<Sum>j\<leftarrow>[0..<ndofs sp]. M sp j i * dh (step solve dh_dt sp dtv s) ! j)
        = M sp i i * dh (step solve dh_dt sp dtv s) ! i"
      using i by (rule sum_list_upt_single) (simp add: indicator_M_offdiag [OF ib i])
    with sys [OF i] show ?thesis by simp
  qed
qed

text \<open>
  The system as the claim words it, without the sign, fails: on the mesh of two cells with
  the flow from the left cell, holding \<open>h = 1\<close>, to the right cell, holding \<open>h = 0\<close>, the
  mass matrix applied to the increment is \<open>1/2\<close> at the right cell, and \<open>dt\<close> times the sum of
  the flux forms there is \<open>- 1/2\<close>.
\<close>

theorem increment_sign_counterexample:
  "(\<Sum>j\<leftarrow>[0..<ndofs (two_cells (1, 0) (- 1, 0) (1, 0))].
      M (two_cells (1, 0) (- 1, 0) (1, 0)) j 1
      * dh (step diag_solve dh_dt_1 (two_cells (1, 0) (- 1, 0) (1, 0)) (1 / 2)
             (init (two_cells (1, 0) (- 1, 0) (1, 0)) [1, 0])) ! j) = 1 / 2
   \<and> (1 / 2) * (cell_flux (two_cells (1, 0) (- 1, 0) (1, 0)) [1, 0] 1
                + edge_flux (two_cells (1, 0) (- 1, 0) (1, 0)) [1, 0] 1
                + in_flux (two_cells (1, 0) (- 1, 0) (1, 0)) [1, 0] 1
                + out_flux (two_cells (1, 0) (- 1, 0) (1, 0)) [1, 0] 1) = - (1 / 2)"
  by (simp add: two_cells_eval)

theorem increment_solves_mass_system_witness:
  "dh (step diag_solve dh_dt (two_cells (1, 0) (- 1, 0) (1, 0)) (1 / 2)
         (init (two_cells (1, 0) (- 1, 0) (1, 0)) [1, 0])) = [0, 1 / 4]
   \<and> h (step diag_solve dh_dt (two_cells (1, 0) (- 1, 0) (1, 0)) (1 / 2)
         (init (two_cells (1, 0) (- 1, 0) (1, 0)) [1, 0])) = [1, 1 / 4]
   \<and> indicator_basis (two_cells (1, 0) (- 1, 0) (1, 0))
   \<and> M (two_cells (1, 0) (- 1, 0) (1, 0)) 1 1
      * dh (step diag_solve dh_dt (two_cells (1, 0) (- 1, 0) (1, 0)) (1 / 2)
              (init (two_cells (1, 0) (- 1, 0) (1, 0)) [1, 0])) ! 1
      = - (1 / 2) * (edge_flux (two_cells (1, 0) (- 1, 0) (1, 0)) [1, 0] 1
                     + in_flux (two_cells (1, 0) (- 1, 0) (1, 0)) [1, 0] 1
                     + out_flux (two_cells (1, 0) (- 1, 0) (1, 0)) [1, 0] 1)"
proof -
  let ?sp = "two_cells (1, 0) (- 1, 0) (1, 0)"
  have ib: "indicator_basis ?sp"
    by (simp add: indicator_basis_def two_cells_def upt2 numeral_2_eq_2)
  have i: "(1::nat) < ndofs ?sp"
    by (simp add: two_cells_def)
  note sys = increment_solves_mass_system [OF two_cells_exact [of "(1, 0)" "(- 1, 0)" "(1, 0)"],
      of dh_dt "1 / 2" "init ?sp [1, 0]"]
  have scaling: "M ?sp 1 1 * dh (step diag_solve dh_dt ?sp (1 / 2) (init ?sp [1, 0])) ! 1
      = - (1 / 2) * (edge_flux ?sp (h (init ?sp [1, 0])) 1 + in_flux ?sp (h0 (init ?sp [1, 0])) 1
                     + out_flux ?sp (h (init ?sp [1, 0])) 1)"
    by (rule sys [THEN conjunct2, THEN conjunct2, THEN conjunct2, THEN conjunct2,
          rule_format, OF ib i])
  have "dh (step diag_solve dh_dt ?sp (1 / 2) (init ?sp [1, 0])) = [0, 1 / 4]"
    by (simp add: two_cells_eval)
  moreover have "h (step diag_solve dh_dt ?sp (1 / 2) (init ?sp [1, 0])) = [1, 1 / 4]"
    by (simp add: two_cells_eval)
  moreover have "h (init ?sp [1, 0]) = [1, 0]" and "h0 (init ?sp [1, 0]) = [1, 0]"
    by (simp_all add: init_def)
  ultimately show ?thesis
    using scaling ib by simp
qed

text \<open>
  C10.  The inflow term is computed from \<open>h0\<close>, the projected initial condition, of which
  the state \<open>h\<close> starts as a copy.  No step writes \<open>h0\<close>: after any number of steps it is
  the initial condition, and the increment of every step, in the degree 0 and in the
  degree 1 section, is the solve of a right-hand side whose inflow term is
  \<open>in_flux\<close> of the initial condition, whatever the state has become.  That term is the
  boundary sum of the value of the initial condition times \<open>min (u \<cdot> n) 0\<close> times the test
  function.
\<close>

theorem inflow_value_is_initial_condition:
  "h (init sp h0v) = h0v \<and> h0 (init sp h0v) = h0v
   \<and> h0 (run solve rate sp dtv k (init sp h0v)) = h0v
   \<and> dh (run solve dh_dt sp dtv (Suc k) (init sp h0v))
      = solve (ndofs sp) (M sp)
          (\<lambda>i. dtv * - (edge_flux sp (h (run solve dh_dt sp dtv k (init sp h0v))) i
                         + in_flux sp h0v i
                         + out_flux sp (h (run solve dh_dt sp dtv k (init sp h0v))) i))
   \<and> dh (run solve dh_dt_1 sp dtv (Suc k) (init sp h0v))
      = solve (ndofs sp) (M sp)
          (\<lambda>i. dtv * - (cell_flux sp (h (run solve dh_dt_1 sp dtv k (init sp h0v))) i
                         + edge_flux sp (h (run solve dh_dt_1 sp dtv k (init sp h0v))) i
                         + in_flux sp h0v i
                         + out_flux sp (h (run solve dh_dt_1 sp dtv k (init sp h0v))) i))
   \<and> in_flux sp (h0 (run solve rate sp dtv k (init sp h0v))) i
      = (\<Sum>b\<leftarrow>bdry_points sp.
           bw b * (fn_value h0v (bphi b) * min (inner (bu b) (bn b)) 0 * (bphi b ! i)))"
proof -
  have dh_step: "dh (step solve rate' sp dtv s)
      = solve (ndofs sp) (M sp) (\<lambda>i. dtv * rate' sp (h0 s) (h s) i)" for rate' s
    by (simp add: step_def Let_def)
  have fixed: "h0 (run solve rate' sp dtv k (init sp h0v)) = h0v" for rate'
    by (simp add: init_def)
  have "in_flux sp (h0 (run solve rate sp dtv k (init sp h0v))) i
      = (\<Sum>b\<leftarrow>bdry_points sp.
           bw b * (fn_value h0v (bphi b) * min (inner (bu b) (bn b)) 0 * (bphi b ! i)))"
    by (simp only: fixed in_flux_def)
  with fixed show ?thesis
    by (simp only: run_Suc_right dh_step dh_dt_def dh_dt_1_def) (simp add: init_def)
qed

text \<open>On the mesh of two cells with inflow through the boundary of both, the state of
  the right cell moves from 2 to 7/2 in two steps while the inflow term stays that of the
  initial value 2; the third increment is the one computed from it.\<close>

theorem inflow_value_is_initial_condition_witness:
  "h (run diag_solve dh_dt (two_cells (1, 0) (- 1, 0) (- 1, 0)) (1 / 2) 2
        (init (two_cells (1, 0) (- 1, 0) (- 1, 0)) [1, 2])) = [1, 7 / 2]
   \<and> h0 (run diag_solve dh_dt (two_cells (1, 0) (- 1, 0) (- 1, 0)) (1 / 2) 2
        (init (two_cells (1, 0) (- 1, 0) (- 1, 0)) [1, 2])) = [1, 2]
   \<and> in_flux (two_cells (1, 0) (- 1, 0) (- 1, 0))
        (h0 (run diag_solve dh_dt (two_cells (1, 0) (- 1, 0) (- 1, 0)) (1 / 2) 2
              (init (two_cells (1, 0) (- 1, 0) (- 1, 0)) [1, 2]))) 1 = - 2
   \<and> in_flux (two_cells (1, 0) (- 1, 0) (- 1, 0))
        (h (run diag_solve dh_dt (two_cells (1, 0) (- 1, 0) (- 1, 0)) (1 / 2) 2
              (init (two_cells (1, 0) (- 1, 0) (- 1, 0)) [1, 2]))) 1 = - (7 / 2)
   \<and> dh (run diag_solve dh_dt (two_cells (1, 0) (- 1, 0) (- 1, 0)) (1 / 2) 3
        (init (two_cells (1, 0) (- 1, 0) (- 1, 0)) [1, 2])) = [0, 3 / 4]"
proof -
  let ?sp = "two_cells (1, 0) (- 1, 0) (- 1, 0)"
  let ?s2 = "run diag_solve dh_dt ?sp (1 / 2) 2 (init ?sp [1, 2])"
  note inst = inflow_value_is_initial_condition [of ?sp "[1, 2]" diag_solve dh_dt "1 / 2" 2 1]
  have moved: "h ?s2 = [1, 7 / 2]"
    by (simp add: numeral_2_eq_2 two_cells_eval)
  from inst have kept: "h0 ?s2 = [1, 2]" by blast
  from inst have "in_flux ?sp (h0 ?s2) 1
      = (\<Sum>b\<leftarrow>bdry_points ?sp.
           bw b * (fn_value [1, 2] (bphi b) * min (inner (bu b) (bn b)) 0 * (bphi b ! 1)))"
    by blast
  then have inflow: "in_flux ?sp (h0 ?s2) 1 = - 2"
    by (simp add: two_cells_def fn_value_def inner_def)
  have other: "in_flux ?sp (h ?s2) 1 = - (7 / 2)"
    by (simp add: moved) (simp add: two_cells_eval)
  from inst have "dh (run diag_solve dh_dt ?sp (1 / 2) (Suc 2) (init ?sp [1, 2]))
      = diag_solve (ndofs ?sp) (M ?sp)
          (\<lambda>i. 1 / 2 * - (edge_flux ?sp (h ?s2) i + in_flux ?sp [1, 2] i
                           + out_flux ?sp (h ?s2) i))"
    by blast
  then have incr: "dh (run diag_solve dh_dt ?sp (1 / 2) 3 (init ?sp [1, 2])) = [0, 3 / 4]"
    unfolding moved by (simp add: eval_nat_numeral two_cells_eval)
  from moved kept inflow other incr show ?thesis by blast
qed

section \<open>Rounding to a double\<close>

lemma two_powi_pos [simp]: "0 < (2::real) powi k"
  by (simp add: zero_less_power_int)

lemma two_powi_Suc: "(2::real) powi (k + 1) = 2 * 2 powi k"
  by (simp add: power_int_add)

lemma two_powi_nat: "0 \<le> k \<Longrightarrow> (2::real) powi k = 2 ^ nat k"
  by (simp add: power_int_def)

lemma two_powi_neg_nat: "0 \<le> k \<Longrightarrow> (2::real) powi (- k) = 1 / 2 ^ nat k"
  by (simp add: power_int_minus_divide two_powi_nat)

lemma ilog2_bounds:
  assumes "0 < x"
  shows "2 powi ilog2 x \<le> x \<and> x < 2 powi (ilog2 x + 1)"
proof (cases "1 \<le> x")
  case True
  let ?m = "\<lfloor>x\<rfloor>"
  from True have m: "0 < ?m" by simp
  from m have b1: "1 \<le> bitlen ?m" by (auto simp: bitlen_alt_def)
  from bitlen_bounds [OF m] have lo: "2 ^ nat (bitlen ?m - 1) \<le> ?m" and hi: "?m < 2 ^ nat (bitlen ?m)"
    by simp_all
  have "(2::real) powi (bitlen ?m - 1) = of_int (2 ^ nat (bitlen ?m - 1))"
    using b1 by (simp add: two_powi_nat)
  also have "\<dots> \<le> of_int ?m" using lo by (simp only: of_int_le_iff)
  also have "\<dots> \<le> x" by simp
  finally have 1: "2 powi (bitlen ?m - 1) \<le> x" .
  have "?m + 1 \<le> 2 ^ nat (bitlen ?m)" using hi by simp
  then have "of_int (?m + 1) \<le> (of_int (2 ^ nat (bitlen ?m)) :: real)"
    by (simp only: of_int_le_iff)
  moreover have "x < of_int (?m + 1)" by linarith
  ultimately have "x < of_int (2 ^ nat (bitlen ?m))" by linarith
  also have "\<dots> = 2 powi (bitlen ?m)" using b1 by (simp add: two_powi_nat)
  finally have 2: "x < 2 powi (bitlen ?m - 1 + 1)" by simp
  from True 1 2 show ?thesis by (simp add: ilog2_def)
next
  case False
  let ?c = "\<lceil>1 / x\<rceil> - 1"
  from False assms have inv: "1 < 1 / x" by simp
  then have c: "0 < ?c" by linarith
  from c have b1: "1 \<le> bitlen ?c" by (auto simp: bitlen_alt_def)
  from bitlen_bounds [OF c] have lo: "2 ^ nat (bitlen ?c - 1) \<le> ?c" and hi: "?c < 2 ^ nat (bitlen ?c)"
    by simp_all
  define p :: int where "p = 2 ^ nat (bitlen ?c)"
  define p' :: int where "p' = 2 ^ nat (bitlen ?c - 1)"
  have pr: "(of_int p :: real) = 2 ^ nat (bitlen ?c)" and pr': "(of_int p' :: real) = 2 ^ nat (bitlen ?c - 1)"
    by (simp_all add: p_def p'_def)
  have "\<lceil>1 / x\<rceil> \<le> p" using hi by (simp add: p_def)
  then have "1 / x \<le> of_int p" by (simp only: ceiling_le_iff)
  with assms have "1 / of_int p \<le> x"
    by (simp add: field_simps pr)
  then have 1: "2 powi (- bitlen ?c) \<le> x"
    using b1 by (simp add: two_powi_neg_nat pr)
  have "p' < \<lceil>1 / x\<rceil>" using lo by (simp add: p'_def)
  then have "of_int p' < 1 / x" by (simp only: less_ceiling_iff)
  moreover have "0 < (of_int p' :: real)" by (simp add: pr')
  ultimately have "x < 1 / of_int p'"
    using assms by (simp add: field_simps)
  also have "\<dots> = 2 powi (- (bitlen ?c - 1))"
    using b1 two_powi_neg_nat [of "bitlen ?c - 1"] by (simp only: pr')
  finally have 2: "x < 2 powi (- bitlen ?c + 1)" by simp
  from False 1 2 show ?thesis by (simp add: ilog2_def)
qed

lemma two_powi_le: "j \<le> k \<Longrightarrow> (2::real) powi j \<le> 2 powi k"
  by (rule power_int_increasing) simp_all

lemma ilog2_unique:
  assumes "0 < x" and "2 powi k \<le> x" and "x < 2 powi (k + 1)"
  shows "ilog2 x = k"
proof (rule antisym)
  show "ilog2 x \<le> k"
  proof (rule ccontr)
    assume "\<not> ilog2 x \<le> k"
    then have "k + 1 \<le> ilog2 x" by simp
    then have "(2::real) powi (k + 1) \<le> 2 powi ilog2 x" by (rule two_powi_le)
    with ilog2_bounds [OF assms(1)] assms(3) show False by linarith
  qed
  show "k \<le> ilog2 x"
  proof (rule ccontr)
    assume "\<not> k \<le> ilog2 x"
    then have "ilog2 x + 1 \<le> k" by simp
    then have "(2::real) powi (ilog2 x + 1) \<le> 2 powi k" by (rule two_powi_le)
    with ilog2_bounds [OF assms(1)] assms(2) show False by linarith
  qed
qed

lemma ilog2_mono:
  assumes "0 < x" and "x \<le> y"
  shows "ilog2 x \<le> ilog2 y"
proof (rule ccontr)
  assume "\<not> ilog2 x \<le> ilog2 y"
  then have "ilog2 y + 1 \<le> ilog2 x" by simp
  then have "(2::real) powi (ilog2 y + 1) \<le> 2 powi ilog2 x" by (rule two_powi_le)
  moreover from assms have "0 < y" by simp
  ultimately show False
    using ilog2_bounds [OF assms(1)] ilog2_bounds [OF \<open>0 < y\<close>] assms(2) by linarith
qed

lemma rhe_cases:
  "round_half_even a = \<lfloor>a\<rfloor> \<and> a - of_int \<lfloor>a\<rfloor> \<le> 1 / 2
   \<or> round_half_even a = \<lfloor>a\<rfloor> + 1 \<and> 1 / 2 \<le> a - of_int \<lfloor>a\<rfloor>"
  by (auto simp: round_half_even_def Let_def)

lemma rhe_lower: "\<lfloor>a\<rfloor> \<le> round_half_even a"
  using rhe_cases [of a] by auto

lemma rhe_upper: "round_half_even a \<le> \<lfloor>a\<rfloor> + 1"
  using rhe_cases [of a] by auto

lemma rhe_of_int [simp]: "round_half_even (of_int k) = k"
  by (simp add: round_half_even_def)

lemma rhe_error: "\<bar>of_int (round_half_even a) - a\<bar> \<le> 1 / 2"
proof -
  have "of_int \<lfloor>a\<rfloor> \<le> a" and "a < of_int \<lfloor>a\<rfloor> + 1" by linarith+
  with rhe_cases [of a] show ?thesis by auto
qed

lemma rhe_mono:
  assumes "a \<le> b"
  shows "round_half_even a \<le> round_half_even b"
proof (cases "\<lfloor>a\<rfloor> = \<lfloor>b\<rfloor>")
  case True
  with assms have "a - of_int \<lfloor>a\<rfloor> \<le> b - of_int \<lfloor>b\<rfloor>" by simp
  with True show ?thesis
    by (auto simp: round_half_even_def Let_def)
next
  case False
  from assms have "\<lfloor>a\<rfloor> \<le> \<lfloor>b\<rfloor>" by (rule floor_mono)
  with False have "\<lfloor>a\<rfloor> + 1 \<le> \<lfloor>b\<rfloor>" by simp
  with rhe_upper [of a] rhe_lower [of b] show ?thesis by linarith
qed

lemma rhe_le_int: "a \<le> of_int k \<Longrightarrow> round_half_even a \<le> k"
  using rhe_mono [of a "of_int k"] by simp

lemma rhe_ge_int: "of_int k \<le> a \<Longrightarrow> k \<le> round_half_even a"
  using rhe_mono [of "of_int k" a] by simp

lemma rhe_nonneg: "0 \<le> a \<Longrightarrow> 0 \<le> round_half_even a"
  using rhe_ge_int [of 0 a] by simp

lemma nearest_pos:
  "0 < x \<Longrightarrow> nearest x = of_int (round_half_even (x / 2 powi exponent x)) * 2 powi exponent x"
  by (simp add: nearest_def)

lemma nearest_zero [simp]: "nearest 0 = 0"
  by (simp add: nearest_def)

lemma nearest_nonneg:
  assumes "0 \<le> x"
  shows "0 \<le> nearest x"
proof (cases "x = 0")
  case True
  then show ?thesis by simp
next
  case False
  with assms have x: "0 < x" by simp
  then have "0 \<le> x / 2 powi exponent x" by simp
  then have "0 \<le> round_half_even (x / 2 powi exponent x)" by (rule rhe_nonneg)
  then show ?thesis by (simp add: nearest_pos [OF x])
qed

lemma exponent_pos: "0 < x \<Longrightarrow> exponent x = max (ilog2 x - 52) (- 1074)"
  by (simp add: exponent_def)

lemma exponent_mono:
  assumes "0 < x" and "x \<le> y"
  shows "exponent x \<le> exponent y"
proof -
  from assms have "0 < y" by simp
  with assms ilog2_mono [OF assms] show ?thesis
    by (simp add: exponent_pos)
qed

lemma mantissa_less:
  assumes "0 < x"
  shows "x / 2 powi exponent x < 2 ^ 53"
proof -
  have "ilog2 x + 1 \<le> exponent x + 53"
    using assms by (simp add: exponent_pos)
  then have "(2::real) powi (ilog2 x + 1) \<le> 2 powi (exponent x + 53)"
    by (rule two_powi_le)
  with ilog2_bounds [OF assms] have "x < 2 powi (exponent x + 53)" by linarith
  also have "\<dots> = 2 powi exponent x * 2 ^ 53"
    by (simp add: power_int_add)
  finally show ?thesis by (simp add: field_simps)
qed

lemma mantissa_normal:
  assumes "0 < x" and "- 1074 < exponent x"
  shows "2 ^ 52 \<le> x / 2 powi exponent x"
proof -
  from assms have "exponent x + 52 = ilog2 x"
    by (simp add: exponent_pos max_def split: if_splits)
  with ilog2_bounds [OF assms(1)] have "2 powi (exponent x + 52) \<le> x" by simp
  then have "2 powi exponent x * 2 ^ 52 \<le> x"
    by (simp add: power_int_add)
  then show ?thesis by (simp add: field_simps)
qed

lemma nearest_mono_pos:
  assumes x: "0 < x" and xy: "x \<le> y"
  shows "nearest x \<le> nearest y"
proof -
  from assms have y: "0 < y" by simp
  let ?ex = "exponent x" and ?ey = "exponent y"
  have le: "?ex \<le> ?ey" using x xy by (rule exponent_mono)
  show ?thesis
  proof (cases "?ex = ?ey")
    case True
    from xy have "x / 2 powi ?ey \<le> y / 2 powi ?ey"
      by (simp add: divide_right_mono)
    then have "round_half_even (x / 2 powi ?ey) \<le> round_half_even (y / 2 powi ?ey)"
      by (rule rhe_mono)
    then have "(of_int (round_half_even (x / 2 powi ?ey)) :: real)
        \<le> of_int (round_half_even (y / 2 powi ?ey))"
      by (simp only: of_int_le_iff)
    then show ?thesis
      by (simp add: nearest_pos [OF x] nearest_pos [OF y] True)
  next
    case False
    with le have lt: "?ex + 1 \<le> ?ey" by simp
    have "- 1074 \<le> ?ex" by (simp add: exponent_def)
    with lt have "- 1074 < ?ey" by simp
    with y have "2 ^ 52 \<le> y / 2 powi ?ey" by (rule mantissa_normal)
    then have "of_int (2 ^ 52) \<le> y / 2 powi ?ey" by simp
    then have "2 ^ 52 \<le> round_half_even (y / 2 powi ?ey)" by (rule rhe_ge_int)
    then have "(of_int (2 ^ 52) :: real) \<le> of_int (round_half_even (y / 2 powi ?ey))"
      by (simp only: of_int_le_iff)
    then have "(2::real) ^ 52 * 2 powi ?ey
        \<le> of_int (round_half_even (y / 2 powi ?ey)) * 2 powi ?ey"
      by (intro mult_right_mono) simp_all
    then have big: "2 ^ 52 * 2 powi ?ey \<le> nearest y"
      by (simp add: nearest_pos [OF y])
    from mantissa_less [OF x] have "x / 2 powi ?ex \<le> of_int (2 ^ 53)" by simp
    then have "round_half_even (x / 2 powi ?ex) \<le> 2 ^ 53" by (rule rhe_le_int)
    then have "(of_int (round_half_even (x / 2 powi ?ex)) :: real) \<le> of_int (2 ^ 53)"
      by (simp only: of_int_le_iff)
    then have "of_int (round_half_even (x / 2 powi ?ex)) * 2 powi ?ex
        \<le> (2::real) ^ 53 * 2 powi ?ex"
      by (intro mult_right_mono) simp_all
    then have small: "nearest x \<le> 2 ^ 53 * 2 powi ?ex"
      by (simp add: nearest_pos [OF x])
    have "(2::real) ^ 53 * 2 powi ?ex = 2 ^ 52 * 2 powi (?ex + 1)"
      by (simp add: power_int_add)
    also have "\<dots> \<le> 2 ^ 52 * 2 powi ?ey"
      using two_powi_le [OF lt] by simp
    finally show ?thesis using small big by linarith
  qed
qed

lemma nearest_mono:
  assumes "0 \<le> x" and "x \<le> y"
  shows "nearest x \<le> nearest y"
proof (cases "x = 0")
  case True
  with assms show ?thesis by (simp add: nearest_nonneg)
next
  case False
  with assms show ?thesis by (simp add: nearest_mono_pos)
qed

lemma nearest_int:
  assumes "0 < n" and "n < 2 ^ 53"
  shows "nearest (of_int n) = of_int n"
proof -
  let ?x = "of_int n :: real"
  from assms have x: "0 < ?x" by simp
  have "ilog2 ?x \<le> 52"
  proof (rule ccontr)
    assume "\<not> ilog2 ?x \<le> 52"
    then have "53 \<le> ilog2 ?x" by simp
    then have "(2::real) powi 53 \<le> 2 powi ilog2 ?x" by (rule two_powi_le)
    with ilog2_bounds [OF x] have "(2::real) ^ 53 \<le> of_int n" by simp
    then have "(of_int (2 ^ 53) :: real) \<le> of_int n" by simp
    then have "2 ^ 53 \<le> n" by (simp only: of_int_le_iff)
    with assms show False by simp
  qed
  then have e: "exponent ?x \<le> 0"
    using x by (simp add: exponent_pos)
  define k where "k = nat (- exponent ?x)"
  from e have ek: "exponent ?x = - int k" by (simp add: k_def)
  have p: "(2::real) powi exponent ?x = 1 / 2 ^ k"
    by (simp add: ek power_int_minus_divide)
  have "?x / 2 powi exponent ?x = of_int (n * 2 ^ k)"
    by (simp add: p)
  then have "round_half_even (?x / 2 powi exponent ?x) = n * 2 ^ k"
    by (simp only: rhe_of_int)
  then show ?thesis
    by (simp add: nearest_pos [OF x] p)
qed

lemma ilog2_scale:
  assumes "0 < x"
  shows "ilog2 (x / 2 ^ k) = ilog2 x - int k"
proof (rule ilog2_unique)
  from assms show "0 < x / 2 ^ k" by simp
  have p: "(2::real) powi (j - int k) = 2 powi j / 2 ^ k" for j
    by (simp add: power_int_diff)
  from ilog2_bounds [OF assms] show "2 powi (ilog2 x - int k) \<le> x / 2 ^ k"
    by (simp add: p divide_right_mono)
  have "x / 2 ^ k < 2 powi (ilog2 x + 1) / 2 ^ k"
    using ilog2_bounds [OF assms] by (simp add: divide_strict_right_mono)
  also have "\<dots> = 2 powi (ilog2 x + 1 - int k)"
    by (simp only: p)
  also have "ilog2 x + 1 - int k = ilog2 x - int k + 1" by simp
  finally show "x / 2 ^ k < 2 powi (ilog2 x - int k + 1)" .
qed

lemma nearest_scale:
  assumes x: "0 < x" and normal: "- 1074 \<le> ilog2 x - 52 - int k"
  shows "nearest (x / 2 ^ k) = nearest x / 2 ^ k"
proof -
  from x have xk: "0 < x / 2 ^ k" by simp
  have e: "exponent x = ilog2 x - 52"
    using x normal by (simp add: exponent_pos)
  have ek: "exponent (x / 2 ^ k) = exponent x - int k"
    using xk normal by (simp add: exponent_pos ilog2_scale [OF x] e)
  have p: "(2::real) powi (exponent x - int k) = 2 powi exponent x / 2 ^ k"
    by (simp add: power_int_diff)
  have "x / 2 ^ k / 2 powi exponent (x / 2 ^ k) = x / 2 powi exponent x"
    by (simp add: ek p)
  then show ?thesis
    by (simp add: nearest_pos [OF x] nearest_pos [OF xk] ek p)
qed

lemma nearest_error:
  assumes "0 < x"
  shows "\<bar>nearest x - x\<bar> \<le> 2 powi exponent x / 2"
proof -
  let ?p = "(2::real) powi exponent x"
  have "nearest x - x = (of_int (round_half_even (x / ?p)) - x / ?p) * ?p"
    by (simp add: nearest_pos [OF assms] left_diff_distrib)
  then have "\<bar>nearest x - x\<bar> = \<bar>of_int (round_half_even (x / ?p)) - x / ?p\<bar> * ?p"
    by (simp only: abs_mult) simp
  also have "\<dots> \<le> 1 / 2 * ?p"
    by (intro mult_right_mono rhe_error) simp
  finally show ?thesis by simp
qed

lemmas float_eval =
  round64_def nearest_def exponent_def ilog2_def round_half_even_def Let_def compute_bitlen

lemma floor_le_of_int: "x \<le> of_int k \<Longrightarrow> \<lfloor>x\<rfloor> \<le> k" for x :: real
  by (metis floor_mono floor_of_int)

lemma round64_Finite_iff:
  "round64 x = Finite y \<longleftrightarrow> y = nearest x \<and> \<bar>nearest x\<bar> < 2 ^ 1024"
  unfolding round64_def by (cases "(2::real) ^ 1024 \<le> \<bar>nearest x\<bar>") auto

lemma nearest_abs_lt:
  assumes "is_double x"
  shows "nearest x = x \<and> \<bar>x\<bar> < 2 ^ 1024"
proof -
  note * = assms [unfolded is_double_def round64_Finite_iff]
  then have a: "nearest x = x" by (elim conjE) (rule sym)
  from * have "\<bar>nearest x\<bar> < 2 ^ 1024" by (rule conjunct2)
  then have "\<bar>x\<bar> < 2 ^ 1024" by (simp only: a)
  with a show ?thesis by (rule conjI)
qed

lemma round64_finite:
  assumes "0 \<le> x" and "x \<le> y" and "is_double y"
  shows "round64 x = Finite (nearest x) \<and> 0 \<le> nearest x \<and> nearest x \<le> y"
proof -
  from nearest_abs_lt [OF assms(3)] have y: "nearest y = y" "\<bar>y\<bar> < 2 ^ 1024"
    by blast+
  have "nearest x \<le> nearest y" using assms(1,2) by (rule nearest_mono)
  moreover have "0 \<le> nearest x" using assms(1) by (rule nearest_nonneg)
  ultimately have "\<bar>nearest x\<bar> < 2 ^ 1024" and "nearest x \<le> y" and "0 \<le> nearest x"
    using y by linarith+
  then show ?thesis by (simp only: round64_Finite_iff)
qed

lemma is_double_int:
  assumes "0 < n" and "n < 2 ^ 53"
  shows "is_double (of_int n)"
proof -
  have "(of_int n :: real) < of_int (2 ^ 53)" using assms(2) by (simp only: of_int_less_iff)
  also have "\<dots> < 2 ^ 1024" by simp
  finally have "\<bar>of_int n :: real\<bar> < 2 ^ 1024" using assms(1) by simp
  then show ?thesis
    unfolding is_double_def round64_Finite_iff by (simp only: nearest_int [OF assms])
qed

section \<open>The timestep and the number of steps\<close>

lemma time_setup:
  assumes T: "0 \<le> final_time" and tv: "0 < tv" and dbl: "is_double tv"
    and bound: "final_time / tv \<le> 2 ^ 52"
  shows "\<exists>q d. fdiv (Finite final_time) (Finite tv) = Finite q \<and> 0 \<le> q
     \<and> num_steps final_time (Finite tv) = Inr (\<lfloor>q\<rfloor> + 1)
     \<and> (q \<notin> \<int> \<longrightarrow> \<lfloor>q\<rfloor> + 1 = \<lceil>q\<rceil>) \<and> (q \<in> \<int> \<longrightarrow> \<lfloor>q\<rfloor> + 1 = \<lceil>q\<rceil> + 1)
     \<and> \<lceil>final_time / tv\<rceil> \<le> \<lfloor>q\<rfloor> + 1 \<and> \<lfloor>q\<rfloor> + 1 \<le> \<lceil>final_time / tv\<rceil> + 1
     \<and> 0 < \<lfloor>q\<rfloor> + 1 \<and> loop_count (\<lfloor>q\<rfloor> + 1) = nat (\<lfloor>q\<rfloor> + 1)
     \<and> dt final_time (\<lfloor>q\<rfloor> + 1) = Inr (Finite d)
     \<and> d = nearest (final_time / of_int (\<lfloor>q\<rfloor> + 1))
     \<and> \<bar>d - final_time / of_int (\<lfloor>q\<rfloor> + 1)\<bar>
         \<le> 2 powi exponent (final_time / of_int (\<lfloor>q\<rfloor> + 1)) / 2
     \<and> 0 \<le> d \<and> d \<le> tv"
proof -
  define x where "x = final_time / tv"
  define q where "q = nearest x"
  define n where "n = \<lfloor>q\<rfloor> + 1"
  define d where "d = nearest (final_time / of_int n)"
  from T tv have x0: "0 \<le> x" by (simp add: x_def)
  from bound have x52: "x \<le> of_int (2 ^ 52)" by (simp add: x_def)
  have big: "is_double (of_int (2 ^ 52))"
    by (rule is_double_int) simp_all
  from round64_finite [OF x0 x52 big]
  have rq: "round64 x = Finite q" and q0: "0 \<le> q" and q52: "q \<le> of_int (2 ^ 52)"
    by (simp_all add: q_def)
  have fd: "fdiv (Finite final_time) (Finite tv) = Finite q"
    using tv rq by (simp add: x_def)
  have ns: "num_steps final_time (Finite tv) = Inr n"
    unfolding num_steps_def fd using q0 by (simp add: py_int_def n_def)
  from q0 have fl0: "0 \<le> \<lfloor>q\<rfloor>" by simp
  then have n0: "0 < n" by (simp add: n_def)
  from q52 have "\<lfloor>q\<rfloor> \<le> 2 ^ 52" by (rule floor_le_of_int)
  then have n53: "n < 2 ^ 53" by (simp add: n_def)
  have "q = of_int \<lfloor>q\<rfloor> \<Longrightarrow> q \<in> \<int>" by (metis Ints_of_int)
  then have c1: "q \<notin> \<int> \<longrightarrow> n = \<lceil>q\<rceil>"
    by (auto simp: ceiling_altdef n_def)
  have c2: "q \<in> \<int> \<longrightarrow> n = \<lceil>q\<rceil> + 1"
    by (auto elim!: Ints_cases simp: n_def)
  \<comment> \<open>the rounded quotient lies between the integers around the exact one\<close>
  have lo: "of_int \<lfloor>x\<rfloor> \<le> q"
  proof (cases "\<lfloor>x\<rfloor> = 0")
    case True
    with q0 show ?thesis by simp
  next
    case False
    with x0 have pos: "0 < \<lfloor>x\<rfloor>" by (simp add: order_less_le)
    have "\<lfloor>x\<rfloor> \<le> 2 ^ 52" using x52 by (rule floor_le_of_int)
    then have "\<lfloor>x\<rfloor> < 2 ^ 53" by simp
    with pos have "nearest (of_int \<lfloor>x\<rfloor>) = of_int \<lfloor>x\<rfloor>" by (rule nearest_int)
    moreover have "nearest (of_int \<lfloor>x\<rfloor>) \<le> nearest x"
      using pos by (intro nearest_mono) simp_all
    ultimately show ?thesis by (simp add: q_def)
  qed
  have hi: "q \<le> of_int \<lceil>x\<rceil>"
  proof (cases "\<lceil>x\<rceil> = 0")
    case True
    with x0 have "x = 0" by (metis ceiling_le_zero order_antisym order_refl)
    then show ?thesis by (simp add: q_def)
  next
    case False
    with x0 have pos: "0 < \<lceil>x\<rceil>" by (simp add: order_less_le)
    have "\<lceil>x\<rceil> \<le> 2 ^ 52" using x52 by (simp only: ceiling_le_iff)
    then have "\<lceil>x\<rceil> < 2 ^ 53" by simp
    with pos have "nearest (of_int \<lceil>x\<rceil>) = of_int \<lceil>x\<rceil>" by (rule nearest_int)
    moreover have "nearest x \<le> nearest (of_int \<lceil>x\<rceil>)"
      using x0 by (intro nearest_mono) simp_all
    ultimately show ?thesis by (simp add: q_def)
  qed
  from lo have "\<lfloor>x\<rfloor> \<le> \<lfloor>q\<rfloor>" by (simp only: le_floor_iff)
  moreover have "\<lceil>x\<rceil> \<le> \<lfloor>x\<rfloor> + 1" by (simp add: ceiling_altdef)
  ultimately have b1: "\<lceil>x\<rceil> \<le> n" by (simp add: n_def)
  from hi have "\<lfloor>q\<rfloor> \<le> \<lceil>x\<rceil>" by (rule floor_le_of_int)
  then have b2: "n \<le> \<lceil>x\<rceil> + 1" by (simp add: n_def)
  \<comment> \<open>the count converts to a float exactly\<close>
  have nd: "is_double (of_int n)" using n0 n53 by (rule is_double_int)
  then have fi: "float_of_int n = Inr (of_int n)"
    by (simp add: float_of_int_def is_double_def)
  \<comment> \<open>the count is not below the exact quotient\<close>
  have xn: "x \<le> of_int n"
  proof (rule ccontr)
    assume "\<not> x \<le> of_int n"
    then have "of_int n \<le> x" by simp
    moreover have "(0::real) \<le> of_int n" using n0 by simp
    ultimately have "nearest (of_int n) \<le> nearest x" by (intro nearest_mono)
    then have "of_int n \<le> q" by (simp add: nearest_int [OF n0 n53] q_def)
    then have "n \<le> \<lfloor>q\<rfloor>" by (simp only: le_floor_iff)
    then show False by (simp add: n_def)
  qed
  have rn: "0 < (of_int n :: real)" using n0 by simp
  from xn tv rn have "final_time \<le> of_int n * tv"
    by (simp add: x_def field_simps)
  with rn have le: "final_time / of_int n \<le> tv"
    by (simp add: field_simps)
  have ge: "0 \<le> final_time / of_int n" using T rn by simp
  from round64_finite [OF ge le dbl]
  have rd: "round64 (final_time / of_int n) = Finite d" and d0: "0 \<le> d" and dtv: "d \<le> tv"
    by (simp_all add: d_def)
  have dtn: "dt final_time n = Inr (Finite d)"
    using rn by (simp add: dt_def fi rd)
  have err: "\<bar>d - final_time / of_int n\<bar> \<le> 2 powi exponent (final_time / of_int n) / 2"
  proof (cases "final_time = 0")
    case True
    then show ?thesis by (simp add: d_def)
  next
    case False
    with T rn have "0 < final_time / of_int n" by simp
    then show ?thesis unfolding d_def by (rule nearest_error)
  qed
  have lc: "loop_count n = nat n" by (simp add: loop_count_def)
  from fd q0 ns c1 c2 b1 b2 n0 lc dtn err d0 dtv show ?thesis
    unfolding n_def x_def d_def by blast
qed

text \<open>
  C5 (amended).  For a final time that is not negative and a positive timestep, a double,
  with at most \<open>2 ^ 52\<close> timesteps in the final time, the step count is \<open>int(q) + 1\<close> for the
  double quotient \<open>q\<close> of the final time by the timestep, that is \<open>\<lfloor>q\<rfloor> + 1\<close>: it is \<open>\<lceil>q\<rceil>\<close> when
  \<open>q\<close> is not an integer and one more when it is, and it is the ceiling of the exact
  quotient or one more than that.  The loop body runs that many times.  The per-step \<open>dt\<close>
  is the double nearest to \<open>final_time / num_steps\<close>, within half a unit in the last place
  of it, so the steps divide the interval up to the rounding of that one division; and
  \<open>dt\<close> is at most the timestep.
\<close>

theorem num_steps_and_dt:
  assumes "0 \<le> final_time" and "0 < tv" and "is_double tv" and "final_time / tv \<le> 2 ^ 52"
  shows "\<exists>q d. fdiv (Finite final_time) (Finite tv) = Finite q \<and> 0 \<le> q
     \<and> num_steps final_time (Finite tv) = Inr (\<lfloor>q\<rfloor> + 1)
     \<and> (q \<notin> \<int> \<longrightarrow> \<lfloor>q\<rfloor> + 1 = \<lceil>q\<rceil>) \<and> (q \<in> \<int> \<longrightarrow> \<lfloor>q\<rfloor> + 1 = \<lceil>q\<rceil> + 1)
     \<and> \<lceil>final_time / tv\<rceil> \<le> \<lfloor>q\<rfloor> + 1 \<and> \<lfloor>q\<rfloor> + 1 \<le> \<lceil>final_time / tv\<rceil> + 1
     \<and> 0 < \<lfloor>q\<rfloor> + 1 \<and> loop_count (\<lfloor>q\<rfloor> + 1) = nat (\<lfloor>q\<rfloor> + 1)
     \<and> dt final_time (\<lfloor>q\<rfloor> + 1) = Inr (Finite d)
     \<and> d = nearest (final_time / of_int (\<lfloor>q\<rfloor> + 1))
     \<and> \<bar>d - final_time / of_int (\<lfloor>q\<rfloor> + 1)\<bar>
         \<le> 2 powi exponent (final_time / of_int (\<lfloor>q\<rfloor> + 1)) / 2
     \<and> 0 \<le> d \<and> d \<le> tv"
  using assms by (rule time_setup)

lemmas time_eval =
  num_steps_def dt_def float_of_int_def py_int_def loop_count_def float_eval

text \<open>
  The count is not the ceiling for every input: a final time of 1 with a timestep of 1/2
  gives 3 steps, and the ceiling of the quotient is 2.  Nor do the steps divide the
  interval exactly: for a final time of 1 and 49 steps, \<open>dt\<close> is the double nearest to 1/49,
  and 49 times that is not 1.
\<close>

theorem num_steps_ceiling_counterexample:
  "num_steps 1 (Finite (1 / 2)) = Inr 3 \<and> \<lceil>(1::real) / (1 / 2)\<rceil> = 2
   \<and> dt 1 49 = Inr (Finite (5882252574524729 / 2 ^ 58))
   \<and> 49 * (5882252574524729 / 2 ^ 58) \<noteq> (1::real)"
  by (simp add: time_eval)

text \<open>For a final time of 1 and the double nearest to 0.1 as the timestep, the double
  quotient is 10 (the exact quotient is a little less) and the code takes 11 steps.\<close>

theorem num_steps_and_dt_witness:
  "is_double (3602879701896397 / 2 ^ 55)
   \<and> fdiv (Finite 1) (Finite (3602879701896397 / 2 ^ 55)) = Finite 10
   \<and> num_steps 1 (Finite (3602879701896397 / 2 ^ 55)) = Inr 11
   \<and> \<lceil>(1::real) / (3602879701896397 / 2 ^ 55)\<rceil> = 10
   \<and> dt 1 11 = Inr (Finite (3275345183542179 / 2 ^ 55))
   \<and> (3275345183542179 / 2 ^ 55 :: real) \<le> 3602879701896397 / 2 ^ 55"
proof -
  have a: "(0::real) \<le> 1" and b: "(0::real) < 3602879701896397 / 2 ^ 55" by simp_all
  have c: "is_double (3602879701896397 / 2 ^ 55)"
    by (simp add: is_double_def float_eval)
  have d: "(1::real) / (3602879701896397 / 2 ^ 55) \<le> 2 ^ 52" by simp
  have q: "fdiv (Finite 1) (Finite (3602879701896397 / 2 ^ 55)) = Finite 10"
    by (simp add: float_eval)
  from num_steps_and_dt [OF a b c d] obtain q' d' where
    "fdiv (Finite 1) (Finite (3602879701896397 / 2 ^ 55)) = Finite q'"
    and n: "num_steps 1 (Finite (3602879701896397 / 2 ^ 55)) = Inr (\<lfloor>q'\<rfloor> + 1)"
    and dt: "dt 1 (\<lfloor>q'\<rfloor> + 1) = Inr (Finite d')"
    and d': "d' = nearest (1 / of_int (\<lfloor>q'\<rfloor> + 1))"
    and le: "d' \<le> 3602879701896397 / 2 ^ 55"
    by blast
  with q have q': "q' = 10" by simp
  have "nearest (1 / 11) = 3275345183542179 / 2 ^ 55"
    by (simp add: float_eval)
  with d' q' have "d' = 3275345183542179 / 2 ^ 55" by simp
  with c q n dt le q' show ?thesis by simp
qed

text \<open>The exceptions of the time setup: a quotient beyond the largest double, a timestep
  that underflows to zero, a zero step count, an empty array of cell sizes.\<close>

lemma ilog2_two_powi: "ilog2 (2 powi k) = k"
  by (rule ilog2_unique) (simp_all add: two_powi_Suc)

lemma two_powi_div: "(2::real) powi a / 2 powi b = 2 powi (a - b)"
  by (simp add: power_int_diff)

lemma exponent_two_powi: "exponent (2 powi k) = max (k - 52) (- 1074)"
  by (simp add: exponent_pos ilog2_two_powi)

lemma nearest_two_powi:
  assumes "- 1074 \<le> k"
  shows "nearest (2 powi k) = 2 powi k"
proof -
  define e where "e = exponent (2 powi k)"
  have e: "e = max (k - 52) (- 1074)"
    by (simp add: e_def exponent_pos ilog2_two_powi)
  with assms have "0 \<le> k - e" by simp
  then have "(2::real) powi (k - e) = of_int (2 ^ nat (k - e))"
    by (simp add: two_powi_nat)
  moreover have "(2::real) powi k / 2 powi e = 2 powi (k - e)"
    by (simp add: power_int_diff)
  ultimately have "round_half_even (2 powi k / 2 powi e) = 2 ^ nat (k - e)"
    by (simp only: rhe_of_int)
  then have "nearest (2 powi k) = of_int (2 ^ nat (k - e)) * 2 powi e"
    by (simp add: nearest_pos e_def)
  also have "\<dots> = 2 powi (k - e) * 2 powi e"
    using \<open>0 \<le> k - e\<close> by (simp add: two_powi_nat)
  also have "\<dots> = 2 powi k"
    by (simp add: power_int_add [symmetric])
  finally show ?thesis .
qed

lemma round64_overflow: "round64 (2 ^ 1023 / (1 / 2)) = Infinity"
proof -
  have "(2::real) ^ 1023 / (1 / 2) = 2 powi 1024" by simp
  moreover have "nearest (2 powi 1024) = 2 powi 1024"
    by (rule nearest_two_powi) simp
  moreover have "(2::real) ^ 1024 \<le> \<bar>2 powi 1024\<bar>" by simp
  ultimately show ?thesis by (simp only: round64_def if_True)
qed

lemma round64_underflow: "round64 (1 / 2 ^ 1074 / 2) = Finite 0"
proof -
  have x: "(1::real) / 2 ^ 1074 / 2 = 2 powi (- 1075)"
    by (simp add: power_int_minus_divide)
  have "exponent (2 powi (- 1075)) = max (- 1075 - 52) (- 1074)"
    by (rule exponent_two_powi)
  also have "\<dots> = - 1074" by simp
  finally have e: "exponent (2 powi (- 1075)) = - 1074" .
  have "(2::real) powi (- 1075) / 2 powi (- 1074) = 2 powi (- 1075 - (- 1074))"
    by (rule two_powi_div)
  also have "\<dots> = 1 / 2" by simp
  finally have m: "(2::real) powi (- 1075) / 2 powi (- 1074) = 1 / 2" .
  have "round_half_even (1 / 2) = 0"
    by (simp add: round_half_even_def)
  with m have "round_half_even (2 powi (- 1075) / 2 powi (- 1074)) = 0"
    by (simp only:)
  then have "nearest (2 powi (- 1075)) = 0"
    using nearest_pos [of "2 powi (- 1075)"] by (simp only: e two_powi_pos)
  then have "round64 (2 powi (- 1075)) = Finite 0"
    by (simp only: round64_def) simp
  then show ?thesis
    by (simp only: x)
qed

lemma is_double_min: "is_double (1 / 2 ^ 1074)"
proof -
  have x: "(1::real) / 2 ^ 1074 = 2 powi (- 1074)"
    by (simp add: power_int_minus_divide)
  have "nearest (2 powi (- 1074)) = 2 powi (- 1074)"
    by (rule nearest_two_powi) simp
  moreover have "\<bar>(2::real) powi (- 1074)\<bar> < 2 ^ 1024"
    by (simp add: power_int_minus_divide)
  ultimately show ?thesis
    unfolding is_double_def round64_Finite_iff x by simp
qed

lemma time_setup_raises:
  "num_steps (2 ^ 1023) (Finite (1 / 2)) = Inl OverflowError"
  "timestep (1 / 2 ^ 1074) = Finite 0"
  "num_steps 1 (Finite 0) = Inl OverflowError"
  "num_steps 0 (Finite 0) = Inl ValueError"
  "dt 1 0 = Inl ZeroDivisionError"
  "advect solve sp [] final_time h0v = Inl ValueError"
  "advect solve sp [1 / 2 ^ 1074] 1 h0v = Inl OverflowError"
proof -
  have "fdiv (Finite (2 ^ 1023)) (Finite (1 / 2)) = round64 (2 ^ 1023 / (1 / 2))"
    by (simp only: fdiv.simps) simp
  then have "fdiv (Finite (2 ^ 1023)) (Finite (1 / 2)) = Infinity"
    by (simp only: round64_overflow)
  then show "num_steps (2 ^ 1023) (Finite (1 / 2)) = Inl OverflowError"
    unfolding num_steps_def by (simp only: int_of_float.simps sum.case)
  have "fdiv (Finite (1 / 2 ^ 1074)) (Finite u_max) = round64 (1 / 2 ^ 1074)"
    by (simp add: u_max_def)
  also have "\<dots> = Finite (1 / 2 ^ 1074)"
    using is_double_min by (simp only: is_double_def)
  finally have "timestep (1 / 2 ^ 1074) = fdiv (Finite (1 / 2 ^ 1074)) (Finite 2)"
    by (simp only: timestep_def)
  also have "\<dots> = round64 (1 / 2 ^ 1074 / 2)"
    by (simp only: fdiv.simps) simp
  finally show ts: "timestep (1 / 2 ^ 1074) = Finite 0"
    by (simp only: round64_underflow)
  show ov: "num_steps 1 (Finite 0) = Inl OverflowError"
    by (simp add: num_steps_def)
  show "num_steps 0 (Finite 0) = Inl ValueError"
    by (simp add: num_steps_def)
  show "dt 1 0 = Inl ZeroDivisionError"
    by (simp add: dt_def float_of_int_def round64_def)
  show "advect solve sp [] final_time h0v = Inl ValueError"
    by (simp add: advect_def dx_min_def)
  have "dx_min [1 / 2 ^ 1074] = Some (1 / 2 ^ 1074)"
    by (simp add: dx_min_def)
  then show "advect solve sp [1 / 2 ^ 1074] 1 h0v = Inl OverflowError"
    by (simp only: advect_def ts ov option.case sum.case)
qed

lemma ilog2_ge:
  assumes "0 < x" and "2 powi j \<le> x"
  shows "j \<le> ilog2 x"
proof (rule ccontr)
  assume "\<not> j \<le> ilog2 x"
  then have "ilog2 x + 1 \<le> j" by simp
  then have "(2::real) powi (ilog2 x + 1) \<le> 2 powi j" by (rule two_powi_le)
  with ilog2_bounds [OF assms(1)] assms(2) show False by linarith
qed

lemma round64_scale:
  assumes dbl: "is_double m" and pos: "0 < m" and normal: "- 1074 \<le> ilog2 m - 52 - int k"
  shows "round64 (m / 2 ^ k) = Finite (m / 2 ^ k)"
proof -
  from nearest_abs_lt [OF dbl] have m: "nearest m = m" and lt: "\<bar>m\<bar> < 2 ^ 1024"
    by blast+
  have n: "nearest (m / 2 ^ k) = m / 2 ^ k"
    using nearest_scale [OF pos normal] by (simp only: m)
  have "m / 2 ^ k \<le> m"
    using pos by (simp add: divide_le_eq_1 field_simps)
  with pos lt have "\<bar>m / 2 ^ k\<bar> < 2 ^ 1024" by simp
  then show ?thesis
    unfolding round64_Finite_iff by (simp only: n)
qed

lemma timestep_values:
  assumes dbl: "is_double m" and big: "2 powi (- 1018) \<le> m"
  shows "timestep m = Finite (m / u_max / 2) \<and> timestep_1 m = Finite (m / u_max / 16)
    \<and> is_double (m / u_max / 2) \<and> is_double (m / u_max / 16) \<and> 0 < m"
proof -
  have "0 < (2::real) powi (- 1018)" by (rule two_powi_pos)
  with big have pos: "0 < m" by linarith
  from pos big have il: "- 1018 \<le> ilog2 m" by (rule ilog2_ge)
  from dbl have one: "fdiv (Finite m) (Finite u_max) = Finite m"
    by (simp add: u_max_def is_double_def)
  have r2: "round64 (m / 2 ^ 1) = Finite (m / 2 ^ 1)"
    using dbl pos by (rule round64_scale) (use il in simp)
  have r16: "round64 (m / 2 ^ 4) = Finite (m / 2 ^ 4)"
    using dbl pos by (rule round64_scale) (use il in simp)
  from r2 have t0: "timestep m = Finite (m / u_max / 2)"
    unfolding timestep_def one by (simp add: u_max_def)
  from r16 have t1: "timestep_1 m = Finite (m / u_max / 16)"
    unfolding timestep_1_def one by (simp add: u_max_def)
  from r2 have d0: "is_double (m / u_max / 2)"
    by (simp add: is_double_def u_max_def)
  from r16 have d1: "is_double (m / u_max / 16)"
    by (simp add: is_double_def u_max_def)
  from t0 t1 d0 d1 pos show ?thesis by simp
qed

lemma min_list_in: "xs \<noteq> [] \<Longrightarrow> min_list xs \<in> set xs" for xs :: "real list"
  by (simp add: min_list_Min)

lemma min_list_le: "x \<in> set xs \<Longrightarrow> min_list xs \<le> x" for xs :: "real list"
  by (cases "xs = []") (simp_all add: min_list_Min)

text \<open>
  C6.  The timestep is computed once, before the loop, from the smallest cell size: for
  cell sizes that are doubles of at least \<open>2 ^ - 1018\<close> it is exactly \<open>dx_min / u_max / 2\<close> in
  the degree 0 section and \<open>dx_min / u_max / 16\<close> in the degree 1 section, so it is at most
  \<open>c / u_max / 2\<close> (or \<open>/ 16\<close>) for the size \<open>c\<close> of every cell.  With at most \<open>2 ^ 52\<close> timesteps in
  the final time, each section runs its loop, with its own form, for the step count of
  its timestep and with the \<open>dt\<close> of that count, which obeys the same bound; every step of
  the loop uses that one \<open>dt\<close>.
\<close>

theorem cfl_timestep:
  assumes "cell_sizes \<noteq> []"
    and "\<forall>c\<in>set cell_sizes. is_double c \<and> 2 powi (- 1018) \<le> c"
    and "0 \<le> final_time"
    and "\<forall>c\<in>set cell_sizes. final_time / (c / 16) \<le> 2 ^ 52"
  shows "\<exists>m. dx_min cell_sizes = Some m \<and> m \<in> set cell_sizes \<and> (\<forall>c\<in>set cell_sizes. m \<le> c)
     \<and> timestep m = Finite (m / u_max / 2) \<and> timestep_1 m = Finite (m / u_max / 16)
     \<and> (\<forall>c\<in>set cell_sizes. m / u_max / 2 \<le> c / u_max / 2 \<and> m / u_max / 16 \<le> c / u_max / 16)
     \<and> (\<exists>n d. num_steps final_time (timestep m) = Inr n \<and> dt final_time n = Inr (Finite d)
            \<and> d \<le> m / u_max / 2
            \<and> advect solve sp cell_sizes final_time h0v
               = Inr (Some (run solve dh_dt sp d (loop_count n) (init sp h0v)))
            \<and> (\<forall>k<loop_count n.
                  run solve dh_dt sp d (Suc k) (init sp h0v)
                  = step solve dh_dt sp d (run solve dh_dt sp d k (init sp h0v))))
     \<and> (\<exists>n d. num_steps final_time (timestep_1 m) = Inr n \<and> dt final_time n = Inr (Finite d)
            \<and> d \<le> m / u_max / 16
            \<and> advect_1 solve sp cell_sizes final_time h0v
               = Inr (Some (run solve dh_dt_1 sp d (loop_count n) (init sp h0v)))
            \<and> (\<forall>k<loop_count n.
                  run solve dh_dt_1 sp d (Suc k) (init sp h0v)
                  = step solve dh_dt_1 sp d (run solve dh_dt_1 sp d k (init sp h0v))))"
proof -
  define m where "m = min_list cell_sizes"
  have dm: "dx_min cell_sizes = Some m"
    using assms(1) by (simp add: dx_min_def m_def)
  have mem: "m \<in> set cell_sizes"
    unfolding m_def using assms(1) by (rule min_list_in)
  have le: "\<forall>c\<in>set cell_sizes. m \<le> c"
    by (simp add: min_list_le m_def)
  then have bound: "\<forall>c\<in>set cell_sizes. m / u_max / 2 \<le> c / u_max / 2
      \<and> m / u_max / 16 \<le> c / u_max / 16"
    by (simp add: u_max_def)
  from mem assms(2) have "is_double m" and "2 powi (- 1018) \<le> m" by blast+
  from timestep_values [OF this]
  have t0: "timestep m = Finite (m / u_max / 2)" and t1: "timestep_1 m = Finite (m / u_max / 16)"
    and d0: "is_double (m / u_max / 2)" and d1: "is_double (m / u_max / 16)" and pos: "0 < m"
    by blast+
  from pos have p0: "0 < m / u_max / 2" and p1: "0 < m / u_max / 16"
    by (simp_all add: u_max_def)
  from mem assms(4) have q1: "final_time / (m / u_max / 16) \<le> 2 ^ 52"
    by (simp add: u_max_def)
  have "final_time / (m / u_max / 2) \<le> final_time / (m / u_max / 16)"
    using assms(3) pos by (simp add: u_max_def field_simps)
  with q1 have q0: "final_time / (m / u_max / 2) \<le> 2 ^ 52" by linarith
  from time_setup [OF assms(3) p0 d0 q0] obtain n d where
    s0: "num_steps final_time (Finite (m / u_max / 2)) = Inr n"
      "dt final_time n = Inr (Finite d)" "d \<le> m / u_max / 2"
    by blast
  from time_setup [OF assms(3) p1 d1 q1] obtain n' d' where
    s1: "num_steps final_time (Finite (m / u_max / 16)) = Inr n'"
      "dt final_time n' = Inr (Finite d')" "d' \<le> m / u_max / 16"
    by blast
  have a0: "advect solve sp cell_sizes final_time h0v
      = Inr (Some (run solve dh_dt sp d (loop_count n) (init sp h0v)))"
    by (simp only: advect_def dm t0 s0 option.case sum.case float64.case)
  have a1: "advect_1 solve sp cell_sizes final_time h0v
      = Inr (Some (run solve dh_dt_1 sp d' (loop_count n') (init sp h0v)))"
    by (simp only: advect_1_def dm t1 s1 option.case sum.case float64.case)
  have r: "run solve rate' sp dtv (Suc k) s = step solve rate' sp dtv (run solve rate' sp dtv k s)"
    for rate' dtv k s
    by (rule run_Suc_right)
  have e0: "\<exists>n d. num_steps final_time (timestep m) = Inr n \<and> dt final_time n = Inr (Finite d)
      \<and> d \<le> m / u_max / 2
      \<and> advect solve sp cell_sizes final_time h0v
         = Inr (Some (run solve dh_dt sp d (loop_count n) (init sp h0v)))
      \<and> (\<forall>k<loop_count n.
            run solve dh_dt sp d (Suc k) (init sp h0v)
            = step solve dh_dt sp d (run solve dh_dt sp d k (init sp h0v)))"
    unfolding t0 using s0 a0 r by blast
  have e1: "\<exists>n d. num_steps final_time (timestep_1 m) = Inr n \<and> dt final_time n = Inr (Finite d)
      \<and> d \<le> m / u_max / 16
      \<and> advect_1 solve sp cell_sizes final_time h0v
         = Inr (Some (run solve dh_dt_1 sp d (loop_count n) (init sp h0v)))
      \<and> (\<forall>k<loop_count n.
            run solve dh_dt_1 sp d (Suc k) (init sp h0v)
            = step solve dh_dt_1 sp d (run solve dh_dt_1 sp d k (init sp h0v)))"
    unfolding t1 using s1 a1 r by blast
  from dm mem le t0 t1 bound e0 e1 show ?thesis
    by (intro exI [of _ m] conjI)
qed

text \<open>The smallest cell size 1/16 and the notebook's final time, the double of \<open>2 \<pi>\<close>:
  202 steps in the degree 0 section and 1609 in the degree 1 section.\<close>

theorem cfl_timestep_witness:
  "dx_min [1 / 8, 1 / 16, 1 / 4] = Some (1 / 16)
   \<and> timestep (1 / 16) = Finite (1 / 32) \<and> timestep_1 (1 / 16) = Finite (1 / 256)
   \<and> num_steps (884279719003555 / 2 ^ 47) (timestep (1 / 16)) = Inr 202
   \<and> dt (884279719003555 / 2 ^ 47) 202 = Inr (Finite (4482685308216041 / 2 ^ 57))
   \<and> (4482685308216041 / 2 ^ 57 :: real) \<le> 1 / 32
   \<and> advect diag_solve (two_cells (1, 0) (0, 1) (0, - 1)) [1 / 8, 1 / 16, 1 / 4]
        (884279719003555 / 2 ^ 47) [1, 0]
      = Inr (Some (run diag_solve dh_dt (two_cells (1, 0) (0, 1) (0, - 1))
                     (4482685308216041 / 2 ^ 57) 202
                     (init (two_cells (1, 0) (0, 1) (0, - 1)) [1, 0])))
   \<and> num_steps (884279719003555 / 2 ^ 47) (timestep_1 (1 / 16)) = Inr 1609
   \<and> dt (884279719003555 / 2 ^ 47) 1609 = Inr (Finite (4502187357412755 / 2 ^ 60))
   \<and> (4502187357412755 / 2 ^ 60 :: real) \<le> 1 / 256
   \<and> advect_1 cramer2 one_cell_p1 [1 / 8, 1 / 16, 1 / 4] (884279719003555 / 2 ^ 47) [1, 0]
      = Inr (Some (run cramer2 dh_dt_1 one_cell_p1 (4502187357412755 / 2 ^ 60) 1609
                     (init one_cell_p1 [1, 0])))"
proof -
  let ?T = "884279719003555 / 2 ^ 47 :: real"
  let ?cs = "[1 / 8, 1 / 16, 1 / 4] :: real list"
  have a: "?cs \<noteq> []" by simp
  have "(2::real) powi (- 1018) \<le> 2 powi (- 4)"
    by (rule two_powi_le) simp
  also have "\<dots> = 1 / 16" by simp
  finally have lo: "(2::real) powi (- 1018) \<le> 1 / 16" .
  have "is_double (1 / 8)" and "is_double (1 / 16)" and "is_double (1 / 4)"
    by (simp_all add: is_double_def float_eval)
  with lo have b: "\<forall>c\<in>set ?cs. is_double c \<and> 2 powi (- 1018) \<le> c"
    by (simp del: power_int_minus)
  have c: "0 \<le> ?T" by simp
  have d: "\<forall>c\<in>set ?cs. ?T / (c / 16) \<le> 2 ^ 52" by simp
  have m: "dx_min ?cs = Some (1 / 16)"
    by (simp add: dx_min_def)
  have t0: "timestep (1 / 16) = Finite (1 / 32)" and t1: "timestep_1 (1 / 16) = Finite (1 / 256)"
    by (simp_all add: timestep_def timestep_1_def u_max_def float_eval)
  have n0: "num_steps ?T (Finite (1 / 32)) = Inr 202"
    and n1: "num_steps ?T (Finite (1 / 256)) = Inr 1609"
    by (simp_all add: time_eval)
  have d0: "dt ?T 202 = Inr (Finite (4482685308216041 / 2 ^ 57))"
    and d1: "dt ?T 1609 = Inr (Finite (4502187357412755 / 2 ^ 60))"
    by (simp_all add: time_eval)
  from cfl_timestep [OF a b c d, of diag_solve "two_cells (1, 0) (0, 1) (0, - 1)" "[1, 0]"]
  obtain m' n d where m': "dx_min ?cs = Some m'"
    and n: "num_steps ?T (timestep m') = Inr n" and dn: "dt ?T n = Inr (Finite d)"
    and le: "d \<le> m' / u_max / 2"
    and adv: "advect diag_solve (two_cells (1, 0) (0, 1) (0, - 1)) ?cs ?T [1, 0]
         = Inr (Some (run diag_solve dh_dt (two_cells (1, 0) (0, 1) (0, - 1)) d (loop_count n)
                        (init (two_cells (1, 0) (0, 1) (0, - 1)) [1, 0])))"
    by blast
  from m' m have "m' = 1 / 16" by (metis option.inject)
  with n t0 n0 have n202: "n = 202" by (metis sum.inject(2))
  with dn d0 have d202: "d = 4482685308216041 / 2 ^ 57"
    by (metis sum.inject(2) float64.inject)
  from le have le0: "(4482685308216041 / 2 ^ 57 :: real) \<le> 1 / 32"
    unfolding d202 \<open>m' = 1 / 16\<close> by (simp add: u_max_def)
  have lc0: "loop_count 202 = 202" by (simp add: loop_count_def)
  note adv0 = adv [unfolded n202 d202 lc0]
  from cfl_timestep [OF a b c d, of cramer2 one_cell_p1 "[1, 0]"]
  obtain m'' n' d' where m'': "dx_min ?cs = Some m''"
    and n': "num_steps ?T (timestep_1 m'') = Inr n'" and dn': "dt ?T n' = Inr (Finite d')"
    and le': "d' \<le> m'' / u_max / 16"
    and adv': "advect_1 cramer2 one_cell_p1 ?cs ?T [1, 0]
         = Inr (Some (run cramer2 dh_dt_1 one_cell_p1 d' (loop_count n') (init one_cell_p1 [1, 0])))"
    by blast
  from m'' m have "m'' = 1 / 16" by (metis option.inject)
  with n' t1 n1 have n1609: "n' = 1609" by (metis sum.inject(2))
  with dn' d1 have d1609: "d' = 4502187357412755 / 2 ^ 60"
    by (metis sum.inject(2) float64.inject)
  from le' have le1: "(4502187357412755 / 2 ^ 60 :: real) \<le> 1 / 256"
    unfolding d1609 \<open>m'' = 1 / 16\<close> by (simp add: u_max_def)
  have lc1: "loop_count 1609 = 1609" by (simp add: loop_count_def)
  note adv1 = adv' [unfolded n1609 d1609 lc1]
  from m t0 t1 n0 d0 le0 adv0 n1 d1 le1 adv1 show ?thesis
    by (simp only: simp_thms)
qed

end
